theory Spec2Isabelle
  imports Complex_Main "HOL-Library.Word"
begin

section \<open>JavaScript numbers on the path of the Dimension Planner\<close>

text \<open>
  \<^verbatim>\<open>resizeWithAspectRatioAndAlign\<close> computes with JavaScript Numbers, which are IEEE 754
  binary64 values. Every finite binary64 value is a rational, and \<^verbatim>\<open>*\<close>, \<^verbatim>\<open>/\<close>, \<^verbatim>\<open>-\<close> and
  \<^verbatim>\<open>Math.sqrt\<close> return the exact result rounded to the nearest value with a 53-bit
  significand, ties to even. The model keeps a Number as the rational it denotes and
  rounds after every operation, also in the correction loop. The exponent range is not
  modelled (no overflow to Infinity, no subnormals, no NaN): the planner is only called
  with integer \<^verbatim>\<open>fw, fh > 0\<close> and \<^verbatim>\<open>maxPixel \<ge> 0\<close>, and for image sizes below \<open>2^32\<close> and
  the budgets considered below (up to \<open>10^35\<close>) every intermediate value is zero or lies
  well inside the normal range.
\<close>

type_synonym number = rat

definition pow2 :: "int \<Rightarrow> rat" where
  "pow2 e = (if 0 \<le> e then 2 ^ nat e else 1 / 2 ^ nat (- e))"

function bit_length :: "int \<Rightarrow> int" where
  "bit_length n = (if n \<le> 0 then 0 else bit_length (n div 2) + 1)"
  by pat_completeness auto
termination
  by (relation "measure nat") auto

declare bit_length.simps [simp del]

text \<open>\<open>flog2 x\<close> is the binary exponent of a positive \<open>x\<close>: \<open>2 ^ flog2 x \<le> x < 2 ^ (flog2 x + 1)\<close>.\<close>

definition flog2 :: "rat \<Rightarrow> int" where
  "flog2 x =
     (if 1 \<le> x then bit_length \<lfloor>x\<rfloor> - 1
      else if pow2 (1 - bit_length \<lfloor>1 / x\<rfloor>) \<le> x then 1 - bit_length \<lfloor>1 / x\<rfloor>
      else - bit_length \<lfloor>1 / x\<rfloor>)"

text \<open>Nearest integer, ties to the even one.\<close>

definition round_even :: "rat \<Rightarrow> int" where
  "round_even q =
     (if q - of_int \<lfloor>q\<rfloor> < 1 / 2 then \<lfloor>q\<rfloor>
      else if 1 / 2 < q - of_int \<lfloor>q\<rfloor> then \<lfloor>q\<rfloor> + 1
      else if even \<lfloor>q\<rfloor> then \<lfloor>q\<rfloor> else \<lfloor>q\<rfloor> + 1)"

text \<open>Rounding of an exact result to 53 significant bits.\<close>

definition round53 :: "rat \<Rightarrow> number" where
  "round53 x =
     (if x = 0 then 0
      else of_int (round_even (x / pow2 (flog2 \<bar>x\<bar> - 52))) * pow2 (flog2 \<bar>x\<bar> - 52))"

definition fmul :: "number \<Rightarrow> number \<Rightarrow> number" where
  "fmul a b = round53 (a * b)"

definition fdiv :: "number \<Rightarrow> number \<Rightarrow> number" where
  "fdiv a b = round53 (a / b)"

definition fsub :: "number \<Rightarrow> number \<Rightarrow> number" where
  "fsub a b = round53 (a - b)"

text \<open>Integer square root, two bits of the argument per step.\<close>

definition isqrt_step :: "int \<Rightarrow> int \<Rightarrow> int" where
  "isqrt_step r n = (if (r + 1) * (r + 1) \<le> n then r + 1 else r)"

function isqrt :: "int \<Rightarrow> int" where
  "isqrt n =
     (if n < 4 then (if n \<le> 0 then 0 else 1)
      else isqrt_step (2 * isqrt (n div 4)) n)"
  by pat_completeness auto
termination
  by (relation "measure nat") auto

declare isqrt.simps [simp del]

text \<open>
  \<open>sqrt_round y m\<close>, for \<open>m = \<lfloor>sqrt y\<rfloor>\<close>, is the integer nearest to \<open>sqrt y\<close>: it compares
  \<open>y\<close> with \<open>(m + 1/2)\<^sup>2\<close>.
\<close>

definition sqrt_round :: "rat \<Rightarrow> int \<Rightarrow> int" where
  "sqrt_round y m =
     (if y < (of_int m + 1 / 2) * (of_int m + 1 / 2) then m
      else if (of_int m + 1 / 2) * (of_int m + 1 / 2) < y then m + 1
      else if even m then m else m + 1)"

text \<open>
  \<^verbatim>\<open>Math.sqrt\<close>: the argument is scaled by an even power of two so that its root has
  53 integer bits, the root is rounded to the nearest integer and scaled back.
\<close>

definition fsqrt :: "number \<Rightarrow> number" where
  "fsqrt x =
     (if x \<le> 0 then 0
      else of_int (sqrt_round (x / pow2 (2 * (flog2 x div 2 - 52)))
                     (isqrt \<lfloor>x / pow2 (2 * (flog2 x div 2 - 52))\<rfloor>))
           * pow2 (flog2 x div 2 - 52))"

section \<open>Dimension Planner: \<^verbatim>\<open>resizeWithAspectRatioAndAlign\<close>\<close>

text \<open>
  The correction loop of step 3:
  \<^verbatim>\<open>while (w * h > maxPixel) { if (w >= h) w -= align; else h -= align;
                             if (w <= 0 || h <= 0) break; }\<close>
  \<^verbatim>\<open>w\<close>, \<^verbatim>\<open>h\<close>, \<^verbatim>\<open>maxPixel\<close> and \<^verbatim>\<open>align\<close> are Numbers: the product \<^verbatim>\<open>w * h\<close> and the
  decrement \<^verbatim>\<open>w -= align\<close> are rounded like every other operation. On a large value
  (from \<open>2^58\<close> on, where neighbouring Numbers are 64 apart) a decrement by 16 rounds back
  to the old value, so the loop need not end; a run that does not return is \<open>None\<close>.
\<close>

partial_function (option) shrink ::
  "number \<Rightarrow> number \<Rightarrow> number \<Rightarrow> number \<Rightarrow> (number \<times> number) option" where
  "shrink w h maxPixel align =
     (if fmul w h > maxPixel then
        (if w \<ge> h then
           (if fsub w align \<le> 0 \<or> h \<le> 0 then Some (fsub w align, h)
            else shrink (fsub w align) h maxPixel align)
         else
           (if w \<le> 0 \<or> fsub h align \<le> 0 then Some (w, fsub h align)
            else shrink w (fsub h align) maxPixel align))
      else Some (w, h))"

declare shrink.simps [code]

text \<open>Step 2: \<^verbatim>\<open>Math.floor(ideal / align) * align\<close>.\<close>

definition align_down :: "number \<Rightarrow> number \<Rightarrow> number" where
  "align_down ideal align = fmul (of_int \<lfloor>fdiv ideal align\<rfloor>) align"

text \<open>
  The function on Numbers. Its arguments are whole numbers: pixel counts, the budget and
  the alignment.
\<close>

definition resizeWithAspectRatioAndAlign_number ::
  "int \<Rightarrow> int \<Rightarrow> int \<Rightarrow> int \<Rightarrow> (number \<times> number) option" where
  "resizeWithAspectRatioAndAlign_number fw fh maxPixel align =
     (let scale = fsqrt (fdiv (of_int maxPixel) (fmul (of_int fw) (of_int fh)));
          wIdeal = fmul (of_int fw) scale;
          hIdeal = fmul (of_int fh) scale;
          w = align_down wIdeal (of_int align);
          h = align_down hIdeal (of_int align);
          w = (if w = 0 then of_int align else w);
          h = (if h = 0 then of_int align else h)
      in shrink w h (of_int maxPixel) (of_int align))"

text \<open>
  The returned \<^verbatim>\<open>{ w, h }\<close> are Numbers with whole values (lemma \<open>planner_integers\<close>
  below); the encoder uses them as pixel counts, so the result is given as integers.
\<close>

definition resizeWithAspectRatioAndAlign ::
  "int \<Rightarrow> int \<Rightarrow> int \<Rightarrow> int \<Rightarrow> (int \<times> int) option" where
  "resizeWithAspectRatioAndAlign fw fh maxPixel align =
     map_option (\<lambda>(w, h). (\<lfloor>w\<rfloor>, \<lfloor>h\<rfloor>))
       (resizeWithAspectRatioAndAlign_number fw fh maxPixel align)"

section \<open>Quantizer: palette and base index buffer\<close>

type_synonym byte = "8 word"
type_synonym buffer = "byte list"

text \<open>
  A palette entry \<^verbatim>\<open>{ r, g, b, a }\<close>. A component read past the end of \<^verbatim>\<open>pixelData\<close> is
  \<^verbatim>\<open>undefined\<close>, here \<open>None\<close>.
\<close>

type_synonym rgba = "byte option \<times> byte option \<times> byte option \<times> byte option"

datatype error = InvalidImage | InvalidImageSize | DecodeFailure | RangeError

text \<open>
  Both scans run \<^verbatim>\<open>for (let i = 0; i < pixelData.length; i += 4)\<close> and read
  \<^verbatim>\<open>[pixelData[i], pixelData[i + 1], pixelData[i + 2], pixelData[i + 3]]\<close>.
\<close>

fun pixels :: "buffer \<Rightarrow> rgba list" where
  "pixels (r # g # b # a # rest) = (Some r, Some g, Some b, Some a) # pixels rest"
| "pixels [r, g, b] = [(Some r, Some g, Some b, None)]"
| "pixels [r, g] = [(Some r, Some g, None, None)]"
| "pixels [r] = [(Some r, None, None, None)]"
| "pixels [] = []"

text \<open>
  \<^verbatim>\<open>`${r},${g},${b},${a}`\<close>: a number is rendered in decimal, \<^verbatim>\<open>undefined\<close> by its name.
\<close>

function show_nat :: "nat \<Rightarrow> string" where
  "show_nat n =
     (if n < 10 then [char_of (48 + n)]
      else show_nat (n div 10) @ [char_of (48 + n mod 10)])"
  by pat_completeness auto
termination
  by (relation "measure id") auto

declare show_nat.simps [simp del]

definition show_component :: "byte option \<Rightarrow> string" where
  "show_component c = (case c of None \<Rightarrow> ''undefined'' | Some v \<Rightarrow> show_nat (unat v))"

definition color_key :: "rgba \<Rightarrow> string" where
  "color_key c =
     (case c of (r, g, b, a) \<Rightarrow>
        show_component r @ '','' @ show_component g @ '','' @ show_component b @ '',''
          @ show_component a)"

text \<open>The first scan, with the set \<^verbatim>\<open>seen\<close> of keys.\<close>

fun scan_colors :: "rgba list \<Rightarrow> rgba list \<times> string set \<Rightarrow> rgba list \<times> string set" where
  "scan_colors [] st = st"
| "scan_colors (c # cs) (rgbaPalette, seen) =
     (if color_key c \<in> seen then scan_colors cs (rgbaPalette, seen)
      else scan_colors cs (rgbaPalette @ [c], insert (color_key c) seen))"

definition black :: rgba where
  "black = (Some 0, Some 0, Some 0, Some 255)"

definition transparent_key :: rgba where
  "transparent_key = (Some 0, Some 0, Some 255, Some 255)"

text \<open>\<^verbatim>\<open>while (rgbaPalette.length < 255) rgbaPalette.push({ r: 0, g: 0, b: 0, a: 255 })\<close>\<close>

function pad_palette :: "rgba list \<Rightarrow> rgba list" where
  "pad_palette rgbaPalette =
     (if length rgbaPalette < 255 then pad_palette (rgbaPalette @ [black]) else rgbaPalette)"
  by pat_completeness auto
termination
  by (relation "measure (\<lambda>p. 255 - length p)") auto

declare pad_palette.simps [simp del]

definition buildPalette :: "buffer \<Rightarrow> rgba list" where
  "buildPalette pixelData =
     pad_palette (fst (scan_colors (pixels pixelData) ([], {}))) @ [transparent_key]"

text \<open>\<^verbatim>\<open>Array.prototype.findIndex\<close>: the first index whose element satisfies \<open>P\<close>, or \<open>-1\<close>.\<close>

fun findIndex_from :: "('a \<Rightarrow> bool) \<Rightarrow> 'a list \<Rightarrow> int \<Rightarrow> int" where
  "findIndex_from P [] i = - 1"
| "findIndex_from P (x # xs) i = (if P x then i else findIndex_from P xs (i + 1))"

definition findIndex :: "('a \<Rightarrow> bool) \<Rightarrow> 'a list \<Rightarrow> int" where
  "findIndex P xs = findIndex_from P xs 0"

text \<open>\<^verbatim>\<open>a <= 128\<close>; the comparison is false when \<^verbatim>\<open>a\<close> is \<^verbatim>\<open>undefined\<close>.\<close>

definition alpha_le_128 :: "rgba \<Rightarrow> bool" where
  "alpha_le_128 c = (case snd (snd (snd c)) of None \<Rightarrow> False | Some a \<Rightarrow> a \<le> 128)"

definition pixelIndex :: "rgba list \<Rightarrow> rgba \<Rightarrow> int" where
  "pixelIndex rgbaPalette c =
     (if alpha_le_128 c then 255
      else if findIndex (\<lambda>c'. c' = c) rgbaPalette \<ge> 0
           then findIndex (\<lambda>c'. c' = c) rgbaPalette else 255)"

definition buildIndexedPixels :: "buffer \<Rightarrow> int list" where
  "buildIndexedPixels pixelData = map (pixelIndex (buildPalette pixelData)) (pixels pixelData)"

section \<open>Mip Generator\<close>

text \<open>\<^verbatim>\<open>indexedPixels[idx] ?? 255\<close>\<close>

definition nth_or_255 :: "int list \<Rightarrow> int \<Rightarrow> int" where
  "nth_or_255 indexedPixels idx =
     (if 0 \<le> idx \<and> nat idx < length indexedPixels then indexedPixels ! nat idx else 255)"

text \<open>
  The two nested loops of one level, with \<^verbatim>\<open>step = 1 << level\<close>, which is \<open>2 ^ level\<close>
  for the levels \<open>0..3\<close> of the source.
\<close>

function mipRow :: "int list \<Rightarrow> int \<Rightarrow> nat \<Rightarrow> int \<Rightarrow> int \<Rightarrow> int list" where
  "mipRow indexedPixels w level y x =
     (if x < w then nth_or_255 indexedPixels (y * w + x) # mipRow indexedPixels w level y (x + 2 ^ level)
      else [])"
  by pat_completeness auto
termination
  by (relation "measure (\<lambda>(indexedPixels, w, level, y, x). nat (w - x))") auto

declare mipRow.simps [simp del]

function mipRows :: "int list \<Rightarrow> int \<Rightarrow> int \<Rightarrow> nat \<Rightarrow> int \<Rightarrow> int list" where
  "mipRows indexedPixels w h level y =
     (if y < h then mipRow indexedPixels w level y 0 @ mipRows indexedPixels w h level (y + 2 ^ level)
      else [])"
  by pat_completeness auto
termination
  by (relation "measure (\<lambda>(indexedPixels, w, h, level, y). nat (h - y))") auto

declare mipRows.simps [simp del]

text \<open>\<^verbatim>\<open>buf\<close> of one level, a \<^verbatim>\<open>number[]\<close>.\<close>

definition mipLevel :: "int list \<Rightarrow> int \<Rightarrow> int \<Rightarrow> nat \<Rightarrow> int list" where
  "mipLevel indexedPixels w h level = mipRows indexedPixels w h level 0"

text \<open>\<^verbatim>\<open>Buffer.from(buf)\<close> keeps the low eight bits of every entry.\<close>

definition Buffer_from :: "int list \<Rightarrow> buffer" where
  "Buffer_from buf = map word_of_int buf"

definition mipsData :: "int list \<Rightarrow> int \<Rightarrow> int \<Rightarrow> buffer list" where
  "mipsData indexedPixels w h =
     map (\<lambda>level. Buffer_from (mipLevel indexedPixels w h level)) [0, 1, 2, 3]"

section \<open>WAD3 Serializer\<close>

definition requiredPadding :: "int \<Rightarrow> int \<Rightarrow> int" where
  "requiredPadding length' multiple =
     (if length' mod multiple = 0 then 0 else multiple - length' mod multiple)"

text \<open>
  \<^verbatim>\<open>buf.write(string, offset)\<close> and the byte stores of the \<^verbatim>\<open>writeUInt\<close> family: the bytes
  replace the content of \<open>buf\<close> from \<open>offset\<close> on; the length of \<open>buf\<close> never changes.
\<close>

definition write_bytes :: "buffer \<Rightarrow> buffer \<Rightarrow> nat \<Rightarrow> buffer" where
  "write_bytes buf bs offset =
     take offset buf @ take (length buf - offset) bs @ drop (offset + length bs) buf"

definition ascii :: "string \<Rightarrow> buffer" where
  "ascii s = map (\<lambda>c. of_nat (of_char c)) s"

text \<open>\<^verbatim>\<open>'{LOGO\0\0\0\0\0\0\0\0\0\0\0'\<close>, sixteen bytes.\<close>

definition logo_name :: buffer where
  "logo_name = ascii ''{LOGO'' @ replicate 11 0"

definition le16 :: "int \<Rightarrow> buffer" where
  "le16 v = [word_of_int v, word_of_int (v div 256)]"

definition le32 :: "int \<Rightarrow> buffer" where
  "le32 v = [word_of_int v, word_of_int (v div 256), word_of_int (v div 65536),
             word_of_int (v div 16777216)]"

text \<open>
  Node's \<^verbatim>\<open>writeUInt8\<close>, \<^verbatim>\<open>writeUInt16LE\<close> and \<^verbatim>\<open>writeUInt32LE\<close> throw a RangeError when
  the value does not fit or the bytes would not lie inside the buffer.
\<close>

definition writeUInt8 :: "buffer \<Rightarrow> int \<Rightarrow> nat \<Rightarrow> error + buffer" where
  "writeUInt8 buf v offset =
     (if v < 0 \<or> 255 < v \<or> length buf < offset + 1 then Inl RangeError
      else Inr (write_bytes buf [word_of_int v] offset))"

definition writeUInt16LE :: "buffer \<Rightarrow> int \<Rightarrow> nat \<Rightarrow> error + buffer" where
  "writeUInt16LE buf v offset =
     (if v < 0 \<or> 65535 < v \<or> length buf < offset + 2 then Inl RangeError
      else Inr (write_bytes buf (le16 v) offset))"

definition writeUInt32LE :: "buffer \<Rightarrow> int \<Rightarrow> nat \<Rightarrow> error + buffer" where
  "writeUInt32LE buf v offset =
     (if v < 0 \<or> 4294967295 < v \<or> length buf < offset + 4 then Inl RangeError
      else Inr (write_bytes buf (le32 v) offset))"

text \<open>A statement that may throw, followed by the rest of the function.\<close>

definition and_then :: "error + 'a \<Rightarrow> ('a \<Rightarrow> error + 'b) \<Rightarrow> error + 'b" where
  "and_then r f = (case r of Inl e \<Rightarrow> Inl e | Inr x \<Rightarrow> f x)"

text \<open>
  \<^verbatim>\<open>let offset = 40;
  for (let i = 0; i < 4; i++) { header.writeUInt32LE(offset, 36 + i * 4); offset += mipsSizes[i]; }\<close>
  The recursion runs through \<^verbatim>\<open>mipsSizes\<close>, which has one entry per level.
\<close>

fun write_mip_offsets :: "int list \<Rightarrow> nat \<Rightarrow> int \<Rightarrow> buffer \<Rightarrow> error + buffer" where
  "write_mip_offsets [] i offset header = Inr header"
| "write_mip_offsets (mipSize # mipsSizes) i offset header =
     and_then (writeUInt32LE header offset (36 + i * 4))
       (write_mip_offsets mipsSizes (i + 1) (offset + mipSize))"

definition wad_header :: "int \<Rightarrow> int \<Rightarrow> int list \<Rightarrow> error + buffer" where
  "wad_header w h mipsSizes =
     and_then (writeUInt32LE (write_bytes (replicate 52 0) (ascii ''WAD3'') 0) 1 4) (\<lambda>header.
     and_then (writeUInt32LE (write_bytes header logo_name 12) w 28) (\<lambda>header.
     and_then (writeUInt32LE header h 32) (\<lambda>header.
     write_mip_offsets mipsSizes 0 40 header)))"

text \<open>
  \<^verbatim>\<open>const c = rgbaPalette[i] || { r: 0, g: 0, b: 0 }\<close> and the three \<^verbatim>\<open>writeUInt8\<close> calls at
  \<^verbatim>\<open>i * 3\<close>, \<^verbatim>\<open>i * 3 + 1\<close>, \<^verbatim>\<open>i * 3 + 2\<close>; an \<^verbatim>\<open>undefined\<close> component is stored as 0.
\<close>

definition palette_rgb :: "rgba list \<Rightarrow> nat \<Rightarrow> buffer" where
  "palette_rgb rgbaPalette i =
     (if i < length rgbaPalette
      then (case rgbaPalette ! i of (r, g, b, a) \<Rightarrow>
              [case r of None \<Rightarrow> 0 | Some v \<Rightarrow> v, case g of None \<Rightarrow> 0 | Some v \<Rightarrow> v,
               case b of None \<Rightarrow> 0 | Some v \<Rightarrow> v])
      else [0, 0, 0])"

fun write_palette :: "rgba list \<Rightarrow> nat list \<Rightarrow> buffer \<Rightarrow> buffer" where
  "write_palette rgbaPalette [] paletteBuf = paletteBuf"
| "write_palette rgbaPalette (i # is) paletteBuf =
     write_palette rgbaPalette is (write_bytes paletteBuf (palette_rgb rgbaPalette i) (i * 3))"

definition paletteBuf :: "rgba list \<Rightarrow> buffer" where
  "paletteBuf rgbaPalette = write_palette rgbaPalette [0..<256] (replicate (256 * 3) 0)"

definition lump_entry :: "int \<Rightarrow> error + buffer" where
  "lump_entry mainDataEnd =
     and_then (writeUInt32LE (replicate 32 0) 12 0) (\<lambda>lump.
     and_then (writeUInt32LE lump (mainDataEnd - 40) 4) (\<lambda>lump.
     and_then (writeUInt32LE lump (mainDataEnd - 40) 8) (\<lambda>lump.
     and_then (writeUInt8 lump 0x43 12) (\<lambda>lump.
     and_then (writeUInt8 lump 0 13) (\<lambda>lump.
     and_then (writeUInt16LE lump 0 14) (\<lambda>lump.
     Inr (write_bytes lump logo_name 16)))))))"

text \<open>
  Step 4 of \<^verbatim>\<open>generateWad3Spray\<close>. The chunks written to the stream are collected in
  order and concatenated; the directory offset is stored into the result last.
\<close>

definition wad3_serialize :: "rgba list \<Rightarrow> buffer list \<Rightarrow> int \<Rightarrow> int \<Rightarrow> error + buffer" where
  "wad3_serialize rgbaPalette mips w h =
     (let mipsSizes = map (\<lambda>buf. int (length buf)) mips;
          totalMipSize = sum_list mipsSizes;
          currentLength = 52 + totalMipSize + 4 + 256 * 3;
          pad = requiredPadding currentLength 4;
          mainDataEnd = currentLength + pad
      in and_then (wad_header w h mipsSizes) (\<lambda>header.
         and_then (lump_entry mainDataEnd) (\<lambda>lump.
         writeUInt32LE
           (concat ([header] @ mips @ [[0, 1, 0, 0], paletteBuf rgbaPalette]
                    @ (if pad > 0 then [replicate (nat pad) 0] else []) @ [lump]))
           mainDataEnd 8)))"

section \<open>\<^verbatim>\<open>generateWad3Spray\<close>\<close>

text \<open>
  \<^verbatim>\<open>!x\<close> for \<^verbatim>\<open>metadata.width\<close> and \<^verbatim>\<open>metadata.height\<close>, each \<^verbatim>\<open>undefined\<close> or a number
  of pixels.
\<close>

definition falsy :: "nat option \<Rightarrow> bool" where
  "falsy x = (x = None \<or> x = Some 0)"

text \<open>
  The image library is outside the repository. Its two answers enter as parameters:
  \<open>metadata\<close> is the pair \<^verbatim>\<open>(metadata.width, metadata.height)\<close>, or \<open>None\<close> when the library
  rejects the input; \<open>quantize w h\<close> is \<^verbatim>\<open>pixelData\<close>, the raw buffer of the input resized to
  \<open>w \<times> h\<close> and reduced to a palette, or \<open>None\<close> when the library rejects the request.
  The outer \<open>option\<close> of the result is \<open>None\<close> when the planner's loop does not return.
\<close>

definition generateWad3Spray ::
  "(nat option \<times> nat option) option \<Rightarrow> (int \<Rightarrow> int \<Rightarrow> buffer option) \<Rightarrow> int
     \<Rightarrow> (error + buffer) option" where
  "generateWad3Spray metadata quantize maxPixiel =
     (case metadata of
        None \<Rightarrow> Some (Inl DecodeFailure)
      | Some (fw, fh) \<Rightarrow>
          if falsy fw \<or> falsy fh then Some (Inl InvalidImage)
          else
            (case resizeWithAspectRatioAndAlign (int (the fw)) (int (the fh)) maxPixiel 16 of
               None \<Rightarrow> None
             | Some (w, h) \<Rightarrow>
                 if w = 0 \<or> h = 0 then Some (Inl InvalidImageSize)
                 else
                   (case quantize w h of
                      None \<Rightarrow> Some (Inl DecodeFailure)
                    | Some pixelData \<Rightarrow>
                        Some (wad3_serialize (buildPalette pixelData)
                                (mipsData (buildIndexedPixels pixelData) w h) w h))))"

text \<open>An answer of the image library: the opaque white image of the requested size.\<close>

definition white_image :: "int \<Rightarrow> int \<Rightarrow> buffer option" where
  "white_image w h = Some (replicate (nat (w * h * 4)) 255)"

text \<open>
  Reading a little-endian 32-bit field back, as a consumer of the file does; Node's
  \<^verbatim>\<open>readUInt32LE\<close> throws a RangeError when the field does not lie inside the buffer.
\<close>

definition readUInt32LE :: "buffer \<Rightarrow> nat \<Rightarrow> error + int" where
  "readUInt32LE buf offset =
     (if length buf < offset + 4 then Inl RangeError
      else Inr (uint (buf ! offset) + 256 * uint (buf ! (offset + 1))
                + 65536 * uint (buf ! (offset + 2)) + 16777216 * uint (buf ! (offset + 3))))"

text \<open>Reading a decimal numeral back.\<close>

definition digit_value :: "char \<Rightarrow> nat" where
  "digit_value c = of_char c - 48"

definition read_nat :: "string \<Rightarrow> nat" where
  "read_nat s = foldl (\<lambda>acc c. 10 * acc + digit_value c) 0 s"

section \<open>Properties of the Number model\<close>

lemma pow2_pos: "0 < pow2 e"
  by (simp add: pow2_def)

lemma round_even_nonneg: "0 \<le> q \<Longrightarrow> 0 \<le> round_even q"
  by (simp add: round_even_def)

lemma round53_nonneg: "0 \<le> x \<Longrightarrow> 0 \<le> round53 x"
  by (simp add: round53_def round_even_nonneg pow2_pos less_imp_le)

lemma isqrt_nonneg: "0 \<le> isqrt n"
proof (induction n rule: isqrt.induct)
  case (1 n)
  then show ?case
    by (subst isqrt.simps) (simp add: isqrt_step_def)
qed

lemma sqrt_round_nonneg: "0 \<le> m \<Longrightarrow> 0 \<le> sqrt_round y m"
  by (simp add: sqrt_round_def)

lemma fsqrt_nonneg: "0 \<le> fsqrt x"
  by (simp add: fsqrt_def sqrt_round_nonneg isqrt_nonneg pow2_pos less_imp_le)

lemma bit_length_nonneg: "0 \<le> bit_length n"
proof (induction n rule: bit_length.induct)
  case (1 n)
  then show ?case by (subst bit_length.simps) simp
qed

lemma bit_length_pos: "0 < n \<Longrightarrow> 0 < bit_length n"
  using bit_length_nonneg [of "n div 2"] by (subst bit_length.simps) simp

lemma bit_length_bounds:
  "0 < n \<Longrightarrow> 2 ^ nat (bit_length n - 1) \<le> n \<and> n < 2 ^ nat (bit_length n)"
proof (induction n rule: bit_length.induct)
  case (1 n)
  have eq: "bit_length n = bit_length (n div 2) + 1"
    using "1.prems" by (subst bit_length.simps) simp
  show ?case
  proof (cases "n div 2 = 0")
    case True
    then have "n = 1" using "1.prems" by presburger
    then show ?thesis
      by (subst (1 2) bit_length.simps, subst (1 2) bit_length.simps) simp
  next
    case False
    then have half: "0 < n div 2" using "1.prems" by simp
    define k where "k = bit_length (n div 2)"
    have k: "0 < k" using bit_length_pos [OF half] by (simp add: k_def)
    have ih: "2 ^ nat (k - 1) \<le> n div 2" "n div 2 < 2 ^ nat k"
      using "1.IH" "1.prems" half by (simp_all add: k_def)
    have "nat k = Suc (nat (k - 1))" using k by simp
    then have p: "(2::int) ^ nat k = 2 * 2 ^ nat (k - 1)" by simp
    have q: "(2::int) ^ nat (k + 1) = 2 * 2 ^ nat k"
      using k by (simp add: nat_add_distrib)
    have "2 * (n div 2) \<le> n" "n < 2 * (n div 2) + 2" by presburger+
    with ih p q show ?thesis
      by (simp add: eq k_def [symmetric])
  qed
qed

lemma pow2_powi: "pow2 e = 2 powi e"
  by (simp add: pow2_def power_int_def field_simps)

lemma pow2_add: "pow2 (a + b) = pow2 a * pow2 b"
  by (simp add: pow2_powi power_int_add)

lemma pow2_mono: "a \<le> b \<Longrightarrow> pow2 a \<le> pow2 b"
  by (simp add: pow2_powi power_int_increasing)

lemma pow2_strict_mono: "a < b \<Longrightarrow> pow2 a < pow2 b"
  by (simp add: pow2_powi power_int_strict_increasing)

lemma pow2_nat: "0 \<le> e \<Longrightarrow> pow2 e = of_int (2 ^ nat e)"
  by (simp add: pow2_def)

lemma pow2_neg: "pow2 (- e) = 1 / pow2 e"
  by (simp add: pow2_powi power_int_minus field_simps)

text \<open>\<open>flog2\<close> is the binary exponent.\<close>

lemma flog2_bounds:
  assumes "0 < x"
  shows "pow2 (flog2 x) \<le> x \<and> x < pow2 (flog2 x + 1)"
proof (cases "1 \<le> x")
  case True
  define n where "n = \<lfloor>x\<rfloor>"
  have n: "0 < n" using True by (simp add: n_def)
  note b = bit_length_bounds [OF n]
  have k: "0 \<le> bit_length n - 1" using bit_length_pos [OF n] by simp
  have "pow2 (bit_length n - 1) = of_int (2 ^ nat (bit_length n - 1))"
    using k by (rule pow2_nat)
  also have "\<dots> \<le> of_int n" using b by (simp only: of_int_le_iff)
  also have "\<dots> \<le> x" by (simp add: n_def)
  finally have lo: "pow2 (bit_length n - 1) \<le> x" .
  have "n + 1 \<le> 2 ^ nat (bit_length n)" using b by simp
  then have "(of_int (n + 1) :: rat) \<le> of_int (2 ^ nat (bit_length n))"
    by (simp only: of_int_le_iff)
  moreover have "x < of_int (n + 1)" using floor_correct [of x] by (simp add: n_def)
  moreover have "pow2 (bit_length n) = of_int (2 ^ nat (bit_length n))"
    using bit_length_nonneg by (rule pow2_nat)
  ultimately have hi: "x < pow2 (bit_length n - 1 + 1)" by simp
  from lo hi True show ?thesis by (simp add: flog2_def n_def)
next
  case False
  define t where "t = 1 / x"
  define n where "n = \<lfloor>t\<rfloor>"
  define k where "k = bit_length n"
  have t: "1 < t" using False assms by (simp add: t_def)
  have x: "x = 1 / t" by (simp add: t_def)
  have n: "0 < n" using t by (simp add: n_def)
  note b = bit_length_bounds [OF n]
  have k: "0 < k" using bit_length_pos [OF n] by (simp add: k_def)
  have "pow2 (k - 1) = of_int (2 ^ nat (k - 1))"
    using k by (intro pow2_nat) simp
  also have "\<dots> \<le> of_int n" using b by (simp only: of_int_le_iff k_def)
  also have "\<dots> \<le> t" by (simp add: n_def)
  finally have lo: "pow2 (k - 1) \<le> t" .
  have "n + 1 \<le> 2 ^ nat k" using b by (simp add: k_def)
  then have "(of_int (n + 1) :: rat) \<le> of_int (2 ^ nat k)"
    by (simp only: of_int_le_iff)
  moreover have "t < of_int (n + 1)" using floor_correct [of t] by (simp add: n_def)
  moreover have "pow2 k = of_int (2 ^ nat k)"
    using k by (intro pow2_nat) simp
  ultimately have hi: "t < pow2 k" by simp
  have x_hi: "x \<le> pow2 (1 - k)"
  proof -
    have "1 / t \<le> 1 / pow2 (k - 1)"
      using lo pow2_pos [of "k - 1"] by (intro divide_left_mono) simp_all
    then show ?thesis using pow2_neg [of "k - 1"] by (simp add: x)
  qed
  have x_lo: "pow2 (- k) < x"
  proof -
    have "1 / pow2 k < 1 / t"
      using hi t by (intro divide_strict_left_mono) simp_all
    then show ?thesis by (simp add: x pow2_neg)
  qed
  have eq: "flog2 x = (if pow2 (1 - k) \<le> x then 1 - k else - k)"
    using False by (simp add: flog2_def k_def n_def t_def)
  show ?thesis
  proof (cases "pow2 (1 - k) \<le> x")
    case True
    have "pow2 (1 - k) < pow2 (1 - k + 1)" by (intro pow2_strict_mono) simp
    with True x_hi show ?thesis by (simp add: eq)
  next
    case False
    then have "x < pow2 (- k + 1)" by (simp add: algebra_simps)
    with False x_lo show ?thesis by (simp add: eq)
  qed
qed

lemma round_even_error: "\<bar>of_int (round_even q) - q\<bar> \<le> 1 / 2"
proof -
  have "of_int \<lfloor>q\<rfloor> \<le> q" "q < of_int \<lfloor>q\<rfloor> + 1" by linarith+
  then show ?thesis
    by (simp add: round_even_def)
qed

lemma round_even_mono: "of_int n \<le> q \<Longrightarrow> n \<le> round_even q"
proof -
  assume "of_int n \<le> q"
  then have "n \<le> \<lfloor>q\<rfloor>" by (simp add: le_floor_iff)
  then show ?thesis by (simp add: round_even_def)
qed

lemma round_even_le: "q \<le> of_int n \<Longrightarrow> round_even q \<le> n"
proof -
  assume a: "q \<le> of_int n"
  then have "\<lfloor>q\<rfloor> \<le> n" by (simp add: floor_le_iff) 
  moreover have "\<lfloor>q\<rfloor> + 1 \<le> n" if "1 / 2 \<le> q - of_int \<lfloor>q\<rfloor>"
  proof -
    from that have "of_int \<lfloor>q\<rfloor> < q" by simp
    with a have "(of_int \<lfloor>q\<rfloor> :: rat) < of_int n" by simp
    then show ?thesis by simp
  qed
  ultimately show ?thesis by (simp add: round_even_def)
qed

text \<open>
  \<open>round53\<close> returns a value with a 53-bit significand that lies within half a unit in
  the last place of its argument.
\<close>

lemma round53_correct:
  assumes "0 < x"
  shows "\<exists>m. round53 x = of_int m * pow2 (flog2 x - 52) \<and> 2 ^ 52 \<le> m \<and> m \<le> 2 ^ 53
           \<and> \<bar>round53 x - x\<bar> \<le> pow2 (flog2 x - 52) / 2"
proof -
  define u where "u = pow2 (flog2 x - 52)"
  define q where "q = x / u"
  have u: "0 < u" by (simp add: u_def pow2_pos)
  have x: "x = q * u" using u by (simp add: q_def)
  have r: "round53 x = of_int (round_even q) * u"
    using assms by (simp add: round53_def q_def u_def)
  have "flog2 x = 52 + (flog2 x - 52)" "flog2 x + 1 = 53 + (flog2 x - 52)" by simp_all
  then have "pow2 (flog2 x) = pow2 52 * u" "pow2 (flog2 x + 1) = pow2 53 * u"
    unfolding u_def by (metis pow2_add)+
  with flog2_bounds [OF assms] have "pow2 52 * u \<le> q * u" "q * u < pow2 53 * u"
    by (simp_all add: x [symmetric])
  with u have q: "pow2 52 \<le> q" "q < pow2 53" by simp_all
  have lo: "2 ^ 52 \<le> round_even q"
    using q(1) by (intro round_even_mono) (simp add: pow2_def)
  have hi: "round_even q \<le> 2 ^ 53"
    using q(2) by (intro round_even_le) (simp add: pow2_def)
  have "round53 x - q * u = (of_int (round_even q) - q) * u"
    by (simp only: r left_diff_distrib)
  then have "round53 x - x = (of_int (round_even q) - q) * u"
    by (simp only: x [symmetric])
  then have "\<bar>round53 x - x\<bar> = \<bar>of_int (round_even q) - q\<bar> * u"
    using u by (simp add: abs_mult)
  also have "\<dots> \<le> (1 / 2) * u"
    using u round_even_error [of q] by (intro mult_right_mono) simp_all
  finally have "\<bar>round53 x - x\<bar> \<le> u / 2" by simp
  with r lo hi show ?thesis unfolding u_def by blast
qed

lemma isqrt_correct:
  "0 \<le> n \<Longrightarrow> isqrt n * isqrt n \<le> n \<and> n < (isqrt n + 1) * (isqrt n + 1)"
proof (induction n rule: isqrt.induct)
  case (1 n)
  show ?case
  proof (cases "n < 4")
    case True
    with "1.prems" show ?thesis by (subst (1 2 3 4) isqrt.simps) auto
  next
    case False
    define r where "r = 2 * isqrt (n div 4)"
    have ih: "isqrt (n div 4) * isqrt (n div 4) \<le> n div 4"
      "n div 4 < (isqrt (n div 4) + 1) * (isqrt (n div 4) + 1)"
      using "1.IH" False "1.prems" by simp_all
    have d: "4 * (n div 4) \<le> n" "n < 4 * (n div 4) + 4" by presburger+
    have lo: "r * r \<le> n"
      using ih(1) d(1) by (simp add: r_def)
    have "n div 4 + 1 \<le> (isqrt (n div 4) + 1) * (isqrt (n div 4) + 1)"
      using ih(2) by simp
    then have hi: "n < (r + 2) * (r + 2)"
      using d(2) by (simp add: r_def algebra_simps)
    have r0: "0 \<le> r" using isqrt_nonneg [of "n div 4"] by (simp add: r_def)
    have eq: "isqrt n = isqrt_step r n"
      using False by (subst isqrt.simps) (simp add: r_def)
    show ?thesis
    proof (cases "(r + 1) * (r + 1) \<le> n")
      case True
      with hi show ?thesis by (simp add: eq isqrt_step_def algebra_simps)
    next
      case False
      with lo show ?thesis by (simp add: eq isqrt_step_def)
    qed
  qed
qed

text \<open>
  \<open>fsqrt x\<close> has a 53-bit significand and lies within half a unit in the last place of the
  square root of \<open>x\<close>: the squares of the two midpoints next to it enclose \<open>x\<close>.
\<close>

lemma fsqrt_correct:
  assumes "0 < x"
  shows "\<exists>m. fsqrt x = of_int m * pow2 (flog2 x div 2 - 52) \<and> 2 ^ 52 \<le> m \<and> m \<le> 2 ^ 53
           \<and> ((of_int m - 1 / 2) * pow2 (flog2 x div 2 - 52))\<^sup>2 \<le> x
           \<and> x \<le> ((of_int m + 1 / 2) * pow2 (flog2 x div 2 - 52))\<^sup>2"
proof -
  define e where "e = flog2 x div 2 - 52"
  define u where "u = pow2 e"
  define y where "y = x / pow2 (2 * e)"
  define m where "m = isqrt \<lfloor>y\<rfloor>"
  define m' where "m' = sqrt_round y m"
  have u: "0 < u" by (simp add: u_def pow2_pos)
  have uu: "pow2 (2 * e) = u\<^sup>2"
    using pow2_add [of e e] by (simp add: u_def power2_eq_square)
  have x: "x = y * u\<^sup>2" using u by (simp add: y_def uu)
  have r: "fsqrt x = of_int m' * u"
    using assms by (simp add: fsqrt_def m'_def m_def y_def u_def e_def)
  have "2 * (flog2 x div 2) \<le> flog2 x" "flog2 x + 1 \<le> 2 * (flog2 x div 2) + 2"
    by presburger+
  then have "pow2 (104 + 2 * e) \<le> pow2 (flog2 x)" "pow2 (flog2 x + 1) \<le> pow2 (106 + 2 * e)"
    by (simp_all add: e_def pow2_mono)
  with flog2_bounds [OF assms] have "pow2 (104 + 2 * e) \<le> x" "x < pow2 (106 + 2 * e)"
    by simp_all
  then have "pow2 104 * u\<^sup>2 \<le> y * u\<^sup>2" "y * u\<^sup>2 < pow2 106 * u\<^sup>2"
    by (simp_all add: pow2_add uu x [symmetric])
  with u have y: "2 ^ 104 \<le> y" "y < 2 ^ 106" by (simp_all add: pow2_def)
  have fl: "0 \<le> \<lfloor>y\<rfloor>" using y(1) by simp
  note c = isqrt_correct [OF fl, folded m_def]
  have m0: "0 \<le> m" by (simp add: m_def isqrt_nonneg)
  have sq_lo: "(of_int m)\<^sup>2 \<le> y"
  proof -
    have "(of_int (m * m) :: rat) \<le> of_int \<lfloor>y\<rfloor>" using c by (simp only: of_int_le_iff)
    also have "\<dots> \<le> y" by simp
    finally show ?thesis by (simp add: power2_eq_square)
  qed
  have sq_hi: "y < (of_int m + 1)\<^sup>2"
  proof -
    have "\<lfloor>y\<rfloor> + 1 \<le> (m + 1) * (m + 1)" using c by simp
    then have "(of_int (\<lfloor>y\<rfloor> + 1) :: rat) \<le> of_int ((m + 1) * (m + 1))"
      by (simp only: of_int_le_iff)
    moreover have "y < of_int (\<lfloor>y\<rfloor> + 1)" using floor_correct [of y] by simp
    ultimately show ?thesis by (simp add: power2_eq_square)
  qed
  have m_lo: "2 ^ 52 \<le> m"
  proof (rule ccontr)
    assume "\<not> 2 ^ 52 \<le> m"
    then have "m + 1 \<le> 2 ^ 52" by simp
    then have "(of_int (m + 1) :: rat) \<le> of_int (2 ^ 52)" by (simp only: of_int_le_iff)
    then have "(of_int m + 1 :: rat)\<^sup>2 \<le> (2 ^ 52)\<^sup>2"
      using m0 by (intro power_mono) simp_all
    with sq_hi y(1) show False by simp
  qed
  have m_hi: "m < 2 ^ 53"
  proof (rule ccontr)
    assume "\<not> m < 2 ^ 53"
    then have "(2 :: int) ^ 53 \<le> m" by simp
    then have "(of_int (2 ^ 53) :: rat) \<le> of_int m" by (simp only: of_int_le_iff)
    then have "((2 ^ 53)\<^sup>2 :: rat) \<le> (of_int m)\<^sup>2"
      by (intro power_mono) simp_all
    with sq_lo y(2) show False by simp
  qed
  have half: "(of_int m - 1 / 2 :: rat)\<^sup>2 \<le> (of_int m)\<^sup>2"
    using m_lo by (intro power_mono) simp_all
  have mid: "(of_int m + 1 / 2) * (of_int m + 1 / 2) = (of_int m + 1 / 2 :: rat)\<^sup>2"
    by (simp add: power2_eq_square)
  have next_lo: "(of_int (m + 1) - 1 / 2 :: rat) = of_int m + 1 / 2" by simp
  have next_hi: "(of_int m + 1 :: rat)\<^sup>2 \<le> (of_int (m + 1) + 1 / 2)\<^sup>2"
    using m0 by (intro power_mono) simp_all
  have enclose: "(of_int m' - 1 / 2)\<^sup>2 \<le> y \<and> y \<le> (of_int m' + 1 / 2)\<^sup>2 \<and> m \<le> m' \<and> m' \<le> m + 1"
    using sq_lo sq_hi half next_hi unfolding m'_def sqrt_round_def mid
    by (auto simp: next_lo simp del: of_int_add)
  have scale: "(a * u)\<^sup>2 \<le> x \<longleftrightarrow> a\<^sup>2 \<le> y" "x \<le> (a * u)\<^sup>2 \<longleftrightarrow> y \<le> a\<^sup>2" for a
    using u by (simp_all add: x power_mult_distrib)
  from enclose m_lo m_hi r show ?thesis
    unfolding u_def e_def [symmetric] by (intro exI [of _ m']) (simp add: scale [unfolded u_def])
qed

lemma round_even_of_int: "round_even (of_int k) = k"
  by (simp add: round_even_def)

text \<open>Integers below \<open>2\<^sup>5\<^sup>3\<close> are Numbers: rounding leaves them unchanged.\<close>

lemma round53_of_int:
  assumes "0 < n" and "n < 2 ^ 53"
  shows "round53 (of_int n) = of_int n"
proof -
  define x :: rat where "x = of_int n"
  define e where "e = flog2 x - 52"
  have x: "0 < x" using assms(1) by (simp add: x_def)
  have "pow2 (flog2 x) \<le> x" using flog2_bounds [OF x] by simp
  also have "x < pow2 53" using assms(2) by (simp add: x_def pow2_def)
  finally have "flog2 x < 53"
    using pow2_mono [of 53 "flog2 x"] by (cases "flog2 x < 53") simp_all
  then have e: "e \<le> 0" by (simp add: e_def)
  have "x / pow2 e = x * pow2 (- e)" by (simp add: pow2_neg)
  also have "\<dots> = of_int (n * 2 ^ nat (- e))"
    using e by (simp add: x_def pow2_nat)
  finally have q: "x / pow2 e = of_int (n * 2 ^ nat (- e))" .
  have "of_int (n * 2 ^ nat (- e)) * pow2 e = x * (pow2 (- e) * pow2 e)"
    using e by (simp add: x_def pow2_nat)
  also have "\<dots> = x" using pow2_pos [of e] by (simp add: pow2_neg)
  finally have "of_int (round_even (x / pow2 e)) * pow2 e = x"
    by (simp only: q round_even_of_int)
  then show ?thesis
    using x by (simp add: round53_def x_def [symmetric] e_def [symmetric])
qed

lemma flog2_unique:
  assumes "0 < x" and "pow2 L \<le> x" and "x < pow2 (L + 1)"
  shows "flog2 x = L"
proof (rule ccontr)
  assume ne: "flog2 x \<noteq> L"
  note b = flog2_bounds [OF assms(1)]
  show False
  proof (cases "flog2 x < L")
    case True
    then have "pow2 (flog2 x + 1) \<le> pow2 L" by (intro pow2_mono) simp
    with b assms(2) show False by simp
  next
    case False
    with ne have "pow2 (L + 1) \<le> pow2 (flog2 x)" by (intro pow2_mono) simp
    with b assms(3) show False by simp
  qed
qed

lemma flog2_scale:
  assumes "0 < x"
  shows "flog2 (x * pow2 k) = flog2 x + k"
proof (rule flog2_unique)
  note b = flog2_bounds [OF assms]
  show "0 < x * pow2 k" using assms pow2_pos by simp
  have "pow2 (flog2 x) * pow2 k \<le> x * pow2 k"
    using b pow2_pos [of k] by simp
  then show "pow2 (flog2 x + k) \<le> x * pow2 k" by (simp add: pow2_add)
  have "x * pow2 k < pow2 (flog2 x + 1) * pow2 k"
    using b pow2_pos [of k] by simp
  moreover have "flog2 x + k + 1 = flog2 x + 1 + k" by simp
  ultimately show "x * pow2 k < pow2 (flog2 x + k + 1)" by (simp only: pow2_add)
qed

lemma pow2_cancel: "x * pow2 k / pow2 (e + k) = x / pow2 e"
  using pow2_pos [of k] by (simp add: pow2_add)

text \<open>Scaling by a power of two commutes with rounding (the exponent is unbounded).\<close>

lemma round53_scale: "round53 (x * pow2 k) = round53 x * pow2 k"
proof (cases "x = 0")
  case True
  then show ?thesis by (simp add: round53_def)
next
  case False
  then have a: "0 < \<bar>x\<bar>" by simp
  have ne: "x * pow2 k \<noteq> 0" using False pow2_pos [of k] by simp
  have "\<bar>x * pow2 k\<bar> = \<bar>x\<bar> * pow2 k"
    using pow2_pos [of k] by (simp add: abs_mult)
  then have e: "flog2 \<bar>x * pow2 k\<bar> - 52 = (flog2 \<bar>x\<bar> - 52) + k"
    using flog2_scale [OF a, of k] by simp
  show ?thesis
    using False ne unfolding round53_def e
    by (simp only: if_False pow2_cancel) (simp add: pow2_add)
qed

lemma fsqrt_scale:
  assumes "0 < x"
  shows "fsqrt (x * pow2 (2 * k)) = fsqrt x * pow2 k"
proof -
  have pos: "\<not> x * pow2 (2 * k) \<le> 0" using assms pow2_pos [of "2 * k"] by (simp add: not_le)
  have "(flog2 x + 2 * k) div 2 = flog2 x div 2 + k" by simp
  then have e: "flog2 (x * pow2 (2 * k)) div 2 - 52 = (flog2 x div 2 - 52) + k"
    using flog2_scale [OF assms, of "2 * k"] by simp
  have c: "x * pow2 (2 * k) / pow2 (2 * (flog2 x div 2 - 52 + k))
             = x / pow2 (2 * (flog2 x div 2 - 52))"
    using pow2_cancel [of x "2 * k" "2 * (flog2 x div 2 - 52)"] by (simp add: algebra_simps)
  show ?thesis
    using assms pos unfolding fsqrt_def e c
    by (simp add: pow2_add)
qed

lemma round53_significand:
  assumes "0 < m" and "m \<le> 2 ^ 53"
  shows "round53 (of_int m * pow2 e) = of_int m * pow2 e"
proof (cases "m = 2 ^ 53")
  case True
  have one: "round53 1 = 1" using round53_of_int [of 1] by simp
  have "(of_int m :: rat) = pow2 53" by (simp add: True pow2_def)
  then have "of_int m * pow2 e = 1 * pow2 (53 + e)" by (simp only: pow2_add mult_1)
  moreover have "round53 (1 * pow2 (53 + e)) = 1 * pow2 (53 + e)"
    by (simp only: round53_scale one)
  ultimately show ?thesis by simp
next
  case False
  with assms have "m < 2 ^ 53" by simp
  then show ?thesis
    unfolding round53_scale using assms(1) by (simp add: round53_of_int)
qed

lemma round53_fsqrt: "round53 (fsqrt x) = fsqrt x"
proof (cases "0 < x")
  case True
  from fsqrt_correct [OF True] obtain m where
    m: "fsqrt x = of_int m * pow2 (flog2 x div 2 - 52)" "2 ^ 52 \<le> m" "m \<le> 2 ^ 53"
    by blast
  then have "0 < m" by simp
  from round53_significand [OF this m(3)] show ?thesis by (simp add: m(1))
next
  case False
  then show ?thesis by (simp add: fsqrt_def round53_def)
qed

text \<open>Well-known binary64 values: \<open>0.1\<close>, \<open>3 * 0.1 = 0.30000000000000004\<close>, \<open>1 / 3\<close> and \<open>\<surd>2\<close>.\<close>

lemma number_examples:
  "fdiv 1 10 = 3602879701896397 / 2 ^ 55"
  "fmul 3 (fdiv 1 10) = 1351079888211149 / 2 ^ 52"
  "fdiv 1 3 = 6004799503160661 / 2 ^ 54"
  "fsqrt 2 = 6369051672525773 / 2 ^ 52"
  by code_simp+

text \<open>
  The computation behind the 65 \<times> 65 source at \<open>maxPixel = 16384\<close>: the ideal width
  comes out one unit in the last place below 128, and its sixteenth below 8.
\<close>

lemma ideal_width_65:
  "fmul 65 (fsqrt (fdiv 16384 (fmul 65 65))) = 9007199254740991 / 2 ^ 46"
  "fdiv (9007199254740991 / 2 ^ 46) 16 = 9007199254740991 / 2 ^ 50"
  "(9007199254740991 / 2 ^ 50 :: rat) < 8"
  by code_simp+

text \<open>
  Whole numbers up to \<open>2^53\<close> are Numbers; rounding changes a value by less than half of
  it, never moves it below a power of two it has reached, and keeps a whole number whole.
\<close>

lemma round53_int_exact:
  assumes "0 \<le> n" and "n \<le> 2 ^ 53"
  shows "round53 (of_int n) = of_int n"
proof (cases "n = 0")
  case True
  then show ?thesis by (simp add: round53_def)
next
  case False
  with assms have "round53 (of_int n * pow2 0) = of_int n * pow2 0"
    by (intro round53_significand) simp_all
  then show ?thesis by (simp add: pow2_def)
qed

lemma round53_bounds:
  assumes "0 \<le> x"
  shows "x / 2 \<le> round53 x \<and> round53 x \<le> 2 * x"
proof (cases "x = 0")
  case True
  then show ?thesis by (simp add: round53_def)
next
  case False
  with assms have pos: "0 < x" by simp
  from round53_correct [OF pos] have err: "\<bar>round53 x - x\<bar> \<le> pow2 (flog2 x - 52) / 2"
    by blast
  have "pow2 (flog2 x - 52) \<le> pow2 (flog2 x)" by (intro pow2_mono) simp
  also have "\<dots> \<le> x" using flog2_bounds [OF pos] by simp
  finally have "\<bar>round53 x - x\<bar> \<le> x / 2" using err by simp
  then show ?thesis by linarith
qed

lemma fsqrt_sq_le:
  assumes "0 \<le> x"
  shows "(fsqrt x)\<^sup>2 \<le> 4 * x"
proof (cases "x = 0")
  case True
  then show ?thesis by (simp add: fsqrt_def)
next
  case False
  with assms have pos: "0 < x" by simp
  define u where "u = pow2 (flog2 x div 2 - 52)"
  obtain m where m: "fsqrt x = of_int m * u" "2 ^ 52 \<le> m" "((of_int m - 1 / 2) * u)\<^sup>2 \<le> x"
    using fsqrt_correct [OF pos] unfolding u_def by blast
  have u: "0 < u" by (simp add: u_def pow2_pos)
  have m1: "1 \<le> m" using m(2) by simp
  then have "(of_int m :: rat) \<le> 2 * (of_int m - 1 / 2)" by simp
  then have "of_int m * u \<le> 2 * ((of_int m - 1 / 2) * u)"
    using u by (simp add: mult.assoc [symmetric])
  moreover have "0 \<le> of_int m * u" using m1 u by simp
  ultimately have "(of_int m * u)\<^sup>2 \<le> (2 * ((of_int m - 1 / 2) * u))\<^sup>2"
    by (intro power_mono) simp_all
  also have "\<dots> = 4 * ((of_int m - 1 / 2) * u)\<^sup>2" by (simp add: power_mult_distrib)
  also have "\<dots> \<le> 4 * x" using m(3) by simp
  finally show ?thesis by (simp only: m(1))
qed

lemma round53_ge_pow2:
  assumes "pow2 k \<le> x"
  shows "pow2 k \<le> round53 x"
proof -
  have pos: "0 < x" using pow2_pos [of k] assms by simp
  obtain m where m: "round53 x = of_int m * pow2 (flog2 x - 52)" "2 ^ 52 \<le> m"
    using round53_correct [OF pos] by blast
  have "pow2 k < pow2 (flog2 x + 1)" using assms flog2_bounds [OF pos] by simp
  then have "k < flog2 x + 1"
    using pow2_mono [of "flog2 x + 1" k] by (cases "k < flog2 x + 1") simp_all
  then have "pow2 k \<le> pow2 (flog2 x)" by (intro pow2_mono) simp
  also have "\<dots> = pow2 52 * pow2 (flog2 x - 52)"
    using pow2_add [of 52 "flog2 x - 52"] by simp
  also have "\<dots> \<le> of_int m * pow2 (flog2 x - 52)"
  proof (intro mult_right_mono)
    have "(of_int (2 ^ 52) :: rat) \<le> of_int m" using m(2) by (simp only: of_int_le_iff)
    then show "pow2 52 \<le> of_int m" by (simp add: pow2_def)
  qed (simp add: pow2_pos less_imp_le)
  finally show ?thesis by (simp only: m(1))
qed

lemma round53_whole:
  assumes "0 \<le> n"
  shows "\<exists>j. 0 \<le> j \<and> round53 (of_int n) = of_int j"
proof (cases "n < 2 ^ 53")
  case True
  with assms round53_int_exact [of n] show ?thesis by auto
next
  case False
  then have big: "(2 :: int) ^ 53 \<le> n" by simp
  define x :: rat where "x = of_int n"
  have pos: "0 < x" using big by (simp add: x_def)
  obtain m where m: "round53 x = of_int m * pow2 (flog2 x - 52)" "2 ^ 52 \<le> m"
    using round53_correct [OF pos] by blast
  have "(of_int (2 ^ 53) :: rat) \<le> of_int n" using big by (simp only: of_int_le_iff)
  then have "pow2 53 \<le> x" by (simp add: pow2_def x_def)
  then have "pow2 53 < pow2 (flog2 x + 1)" using flog2_bounds [OF pos] by simp
  then have "53 < flog2 x + 1"
    using pow2_mono [of "flog2 x + 1" 53] by (cases "53 < flog2 x + 1") simp_all
  then have e: "0 \<le> flog2 x - 52" by simp
  have "round53 x = of_int (m * 2 ^ nat (flog2 x - 52))"
    using m(1) pow2_nat [OF e] by simp
  moreover have "0 \<le> m * 2 ^ nat (flog2 x - 52)" using m(2) by simp
  ultimately show ?thesis unfolding x_def by blast
qed

section \<open>Properties of the Dimension Planner\<close>

text \<open>
  \<^verbatim>\<open>w -= 16\<close> on a multiple of 16 gives a multiple of 16, and the exact one up to \<open>2^53\<close>.
\<close>

lemma fsub_whole:
  assumes "0 < i"
  shows "\<exists>j. 0 \<le> j \<and> fsub (of_int (16 * i)) 16 = of_int (16 * j)"
proof -
  obtain j where j: "0 \<le> j" "round53 (of_int (i - 1)) = of_int j"
    using round53_whole [of "i - 1"] assms by auto
  have "(of_int (16 * i) :: rat) - 16 = of_int (i - 1) * pow2 4"
    by (simp add: pow2_def)
  then have "fsub (of_int (16 * i)) 16 = round53 (of_int (i - 1)) * pow2 4"
    by (simp only: fsub_def round53_scale)
  then have "fsub (of_int (16 * i)) 16 = of_int (16 * j)"
    using j(2) by (simp add: pow2_def)
  with j(1) show ?thesis by blast
qed

lemma fsub_exact:
  assumes "16 \<le> w" and "w \<le> 2 ^ 53"
  shows "fsub (of_int w) 16 = of_int (w - 16)"
proof -
  have "round53 (of_int (w - 16)) = of_int (w - 16)"
    using assms by (intro round53_int_exact) simp_all
  then show ?thesis by (simp add: fsub_def)
qed

text \<open>
  For a budget below \<open>2^61\<close> the test \<^verbatim>\<open>w * h > maxPixel\<close> on multiples of 16 decides what
  the exact product decides: the product is exact below \<open>2^61\<close>, and a rounded product
  is at least \<open>2^61\<close>.
\<close>

lemma fmul_gt_budget:
  assumes "0 < i" and "0 < j" and "mp < 2 ^ 61"
  shows "of_int mp < fmul (of_int (16 * i)) (of_int (16 * j)) \<longleftrightarrow> mp < (16 * i) * (16 * j)"
proof -
  have "(of_int (16 * i) :: rat) * of_int (16 * j) = of_int (i * j) * pow2 8"
    by (simp add: pow2_def)
  then have prod: "fmul (of_int (16 * i)) (of_int (16 * j)) = round53 (of_int (i * j)) * pow2 8"
    by (simp only: fmul_def round53_scale)
  have ij: "0 \<le> i * j" using assms(1,2) by simp
  show ?thesis
  proof (cases "i * j \<le> 2 ^ 53")
    case True
    have "round53 (of_int (i * j)) = of_int (i * j)"
      using ij True by (rule round53_int_exact)
    then have "fmul (of_int (16 * i)) (of_int (16 * j)) = of_int ((16 * i) * (16 * j))"
      using prod by (simp add: pow2_def)
    then show ?thesis by (simp only: of_int_less_iff)
  next
    case False
    then have big: "(2 :: int) ^ 53 \<le> i * j" by simp
    then have "(of_int (2 ^ 53) :: rat) \<le> of_int (i * j)" by (simp only: of_int_le_iff)
    then have "pow2 53 \<le> of_int (i * j)" by (simp add: pow2_def)
    then have "pow2 53 \<le> round53 (of_int (i * j))" by (rule round53_ge_pow2)
    then have "pow2 53 * pow2 8 \<le> fmul (of_int (16 * i)) (of_int (16 * j))"
      unfolding prod using pow2_pos [of 8] by (intro mult_right_mono) simp_all
    moreover have "(of_int mp :: rat) < of_int (2 ^ 61)"
      using assms(3) by (simp only: of_int_less_iff)
    then have "of_int mp < pow2 53 * pow2 8" by (simp add: pow2_def)
    ultimately have "of_int mp < fmul (of_int (16 * i)) (of_int (16 * j))" by simp
    moreover have "mp < (16 * i) * (16 * j)" using assms(3) big by simp
    ultimately show ?thesis by simp
  qed
qed

text \<open>
  The correction loop, started on positive multiples of 16 up to \<open>2^53\<close> with a budget
  below \<open>2^61\<close>, returns; its result consists of non-negative multiples of 16, and a
  component is 0 exactly when not even 16 \<times> 16 fits the budget.
\<close>

lemma shrink_result:
  assumes "mp < 2 ^ 61" and "0 < w" and "0 < h" and "16 dvd w" and "16 dvd h"
    and "w \<le> 2 ^ 53" and "h \<le> 2 ^ 53"
  shows "\<exists>w' h'. shrink (of_int w) (of_int h) (of_int mp) 16 = Some (of_int w', of_int h')
           \<and> 0 \<le> w' \<and> 0 \<le> h' \<and> 16 dvd w' \<and> 16 dvd h'
           \<and> (0 \<le> mp \<longrightarrow> w' * h' \<le> mp)
           \<and> ((w' = 0 \<or> h' = 0) \<longleftrightarrow> mp < 256)"
  using assms(2-)
proof (induction "nat (w + h)" arbitrary: w h rule: less_induct)
  case less
  have wa: "16 \<le> w" using less.prems(1,3) by (simp add: zdvd_imp_le)
  have ha: "16 \<le> h" using less.prems(2,4) by (simp add: zdvd_imp_le)
  have aa: "16 * 16 \<le> w * h"
    using wa ha by (intro mult_mono) simp_all
  obtain i j where ij: "w = 16 * i" "h = 16 * j"
    using less.prems(3,4) by (auto simp: dvd_def)
  have "0 < i" "0 < j" using less.prems(1,2) ij by simp_all
  then have cmp: "of_int mp < fmul (of_int w) (of_int h) \<longleftrightarrow> mp < w * h"
    unfolding ij using assms(1) by (rule fmul_gt_budget)
  have subw: "fsub (of_int w) 16 = of_int (w - 16)"
    using wa less.prems(5) by (rule fsub_exact)
  have subh: "fsub (of_int h) 16 = of_int (h - 16)"
    using ha less.prems(6) by (rule fsub_exact)
  show ?case
  proof (cases "w * h > mp")
    case False
    then have "shrink (of_int w) (of_int h) (of_int mp) 16 = Some (of_int w, of_int h)"
      using cmp by (subst shrink.simps) simp
    moreover have "\<not> mp < 256" using False aa by simp
    ultimately show ?thesis
      using less.prems False by auto
  next
    case over: True
    show ?thesis
    proof (cases "w \<ge> h")
      case wh: True
      show ?thesis
      proof (cases "w - 16 \<le> 0")
        case True
        with wa have w_eq: "w = 16" by simp
        have "shrink (of_int w) (of_int h) (of_int mp) 16 = Some (of_int 0, of_int h)"
          using over wh w_eq cmp subw by (subst shrink.simps) simp
        moreover have "16 * h \<le> 16 * 16"
          using wh w_eq by simp
        then have "mp < 256" using over w_eq by simp
        ultimately show ?thesis
          using less.prems by (intro exI [of _ 0] exI [of _ h]) simp
      next
        case False
        then have step: "shrink (of_int w) (of_int h) (of_int mp) 16
            = shrink (of_int (w - 16)) (of_int h) (of_int mp) 16"
          using over wh less.prems(2) cmp subw by (subst shrink.simps) simp
        have "nat (w - 16 + h) < nat (w + h)"
          using less.prems(1,2) by simp
        moreover have "0 < w - 16" using False by simp
        moreover have "16 dvd w - 16" using less.prems(3) by simp
        moreover have "w - 16 \<le> 2 ^ 53" using less.prems(5) by simp
        ultimately show ?thesis
          using less.hyps [of "w - 16" h] less.prems(2,4,6) step by simp
      qed
    next
      case False
      then have hw: "w < h" by simp
      then have pos: "0 < h - 16" using wa by simp
      then have step: "shrink (of_int w) (of_int h) (of_int mp) 16
          = shrink (of_int w) (of_int (h - 16)) (of_int mp) 16"
        using over hw less.prems(1) cmp subh by (subst shrink.simps) simp
      have "nat (w + (h - 16)) < nat (w + h)"
        using less.prems(1,2) by simp
      moreover have "16 dvd h - 16" using less.prems(4) by simp
      moreover have "h - 16 \<le> 2 ^ 53" using less.prems(6) by simp
      ultimately show ?thesis
        using less.hyps [of w "h - 16"] less.prems(1,3,5) pos step by simp
    qed
  qed
qed

text \<open>
  Without any bound: whatever the loop returns, started on positive multiples of 16,
  consists of non-negative multiples of 16.
\<close>

lemma shrink_whole:
  assumes "shrink w h mp a = Some y" and "a = 16"
    and "\<exists>i. 0 < i \<and> w = of_int (16 * i)" and "\<exists>j. 0 < j \<and> h = of_int (16 * j)"
  shows "\<exists>i j. 0 \<le> i \<and> 0 \<le> j \<and> y = (of_int (16 * i), of_int (16 * j))"
proof -
  have "a = 16 \<longrightarrow> (\<exists>i. 0 < i \<and> w = of_int (16 * i)) \<longrightarrow> (\<exists>j. 0 < j \<and> h = of_int (16 * j))
          \<longrightarrow> (\<exists>i j. 0 \<le> i \<and> 0 \<le> j \<and> y = (of_int (16 * i), of_int (16 * j)))"
  proof (rule shrink.raw_induct [where P = "\<lambda>w h mp a y.
            a = 16 \<longrightarrow> (\<exists>i. 0 < i \<and> w = of_int (16 * i)) \<longrightarrow> (\<exists>j. 0 < j \<and> h = of_int (16 * j))
              \<longrightarrow> (\<exists>i j. 0 \<le> i \<and> 0 \<le> j \<and> y = (of_int (16 * i), of_int (16 * j)))",
          OF _ assms(1)], intro impI)
    fix f :: "rat \<Rightarrow> rat \<Rightarrow> rat \<Rightarrow> rat \<Rightarrow> (rat \<times> rat) option" and w h mp a :: rat and y
    assume IH: "\<And>w h mp a y. f w h mp a = Some y \<Longrightarrow>
            a = 16 \<longrightarrow> (\<exists>i. 0 < i \<and> w = of_int (16 * i)) \<longrightarrow> (\<exists>j. 0 < j \<and> h = of_int (16 * j))
              \<longrightarrow> (\<exists>i j. 0 \<le> i \<and> 0 \<le> j \<and> y = (of_int (16 * i), of_int (16 * j)))"
    assume body: "(if mp < fmul w h
           then if h \<le> w
                then if fsub w a \<le> 0 \<or> h \<le> 0 then Some (fsub w a, h)
                     else f (fsub w a) h mp a
                else if w \<le> 0 \<or> fsub h a \<le> 0 then Some (w, fsub h a)
                     else f w (fsub h a) mp a
           else Some (w, h)) = Some y"
    assume a: "a = 16"
    assume "\<exists>i. 0 < i \<and> w = of_int (16 * i)"
    then obtain i where i: "0 < i" "w = of_int (16 * i)" by blast
    assume "\<exists>j. 0 < j \<and> h = of_int (16 * j)"
    then obtain j where j: "0 < j" "h = of_int (16 * j)" by blast
    obtain i' where i': "0 \<le> i'" "fsub w 16 = of_int (16 * i')"
      using fsub_whole [OF i(1)] i(2) by auto
    obtain j' where j': "0 \<le> j'" "fsub h 16 = of_int (16 * j')"
      using fsub_whole [OF j(1)] j(2) by auto
    show "\<exists>i j. 0 \<le> i \<and> 0 \<le> j \<and> y = (of_int (16 * i), of_int (16 * j))"
    proof (cases "mp < fmul w h")
      case False
      with body have "y = (w, h)" by simp
      with i j show ?thesis by (intro exI [of _ i] exI [of _ j]) simp
    next
      case over: True
      show ?thesis
      proof (cases "h \<le> w")
        case wh: True
        show ?thesis
        proof (cases "fsub w 16 \<le> 0 \<or> h \<le> 0")
          case True
          with body over wh a have "y = (fsub w 16, h)" by simp
          with i' j show ?thesis by (intro exI [of _ i'] exI [of _ j]) simp
        next
          case False
          with body over wh a have run: "f (fsub w 16) h mp 16 = Some y" by simp
          from False i' have "0 < i'" by (cases "i' = 0") simp_all
          with i'(2) have "\<exists>i. 0 < i \<and> fsub w 16 = of_int (16 * i)" by blast
          moreover have "\<exists>j. 0 < j \<and> h = of_int (16 * j)" using j by blast
          ultimately show ?thesis using IH [OF run] by blast
        qed
      next
        case hw: False
        show ?thesis
        proof (cases "w \<le> 0 \<or> fsub h 16 \<le> 0")
          case True
          with body over hw a have "y = (w, fsub h 16)" by simp
          with i j' show ?thesis by (intro exI [of _ i] exI [of _ j']) simp
        next
          case False
          with body over hw a have run: "f w (fsub h 16) mp 16 = Some y" by simp
          from False j' have "0 < j'" by (cases "j' = 0") simp_all
          with j'(2) have "\<exists>j. 0 < j \<and> fsub h 16 = of_int (16 * j)" by blast
          moreover have "\<exists>i. 0 < i \<and> w = of_int (16 * i)" using i by blast
          ultimately show ?thesis using IH [OF run] by blast
        qed
      qed
    qed
  qed
  with assms(2-) show ?thesis by blast
qed

text \<open>
  Step 2 yields a whole multiple of 16, at most four times the ideal side; the ideal side
  \<open>f * scale\<close> squared is at most \<open>64 * f * maxPixel\<close>.
\<close>

lemma align_down_whole:
  assumes "0 \<le> ideal"
  shows "\<exists>j. 0 \<le> j \<and> align_down ideal 16 = of_int (16 * j) \<and> of_int (16 * j) \<le> 4 * ideal"
proof -
  define q where "q = \<lfloor>fdiv ideal 16\<rfloor>"
  have d: "0 \<le> fdiv ideal 16" "fdiv ideal 16 \<le> 2 * (ideal / 16)"
    using round53_bounds [of "ideal / 16"] round53_nonneg [of "ideal / 16"] assms
    by (simp_all add: fdiv_def)
  have q0: "0 \<le> q" using d(1) by (simp add: q_def)
  have qle: "of_int q \<le> fdiv ideal 16" by (simp add: q_def)
  obtain j where j: "0 \<le> j" "round53 (of_int q) = of_int j"
    using round53_whole [OF q0] by blast
  have "align_down ideal 16 = round53 (of_int q * pow2 4)"
    by (simp add: align_down_def fmul_def q_def pow2_def)
  then have "align_down ideal 16 = round53 (of_int q) * pow2 4"
    by (simp only: round53_scale)
  then have eq: "align_down ideal 16 = of_int (16 * j)"
    using j(2) by (simp add: pow2_def)
  have "(of_int j :: rat) \<le> 2 * of_int q"
    using round53_bounds [of "of_int q"] j(2) q0 by simp
  also have "\<dots> \<le> 2 * (2 * (ideal / 16))" using qle d(2) by simp
  finally have "(of_int (16 * j) :: rat) \<le> 4 * ideal" by simp
  with j(1) eq show ?thesis by blast
qed

lemma ideal_bound:
  assumes "0 < f" and "0 \<le> mp" and "of_int f / 2 \<le> P"
  shows "(fmul (of_int f) (fsqrt (fdiv (of_int mp) P)))\<^sup>2 \<le> 64 * (of_int f * of_int mp)"
proof -
  define F :: rat where "F = of_int f"
  define M :: rat where "M = of_int mp"
  define ratio where "ratio = fdiv M P"
  define s where "s = fsqrt ratio"
  define ideal where "ideal = fmul F s"
  have F: "0 < F" using assms(1) by (simp add: F_def)
  have M: "0 \<le> M" using assms(2) by (simp add: M_def)
  have P: "0 < P" "F \<le> 2 * P" using assms(3) F by (simp_all add: F_def)
  have x: "0 \<le> M / P" using M P(1) by simp
  have "M * F \<le> M * (2 * P)" using M P(2) by (intro mult_left_mono)
  then have "M / P \<le> 2 * M / F" using P(1) F by (simp add: field_simps)
  moreover have "0 \<le> ratio" "ratio \<le> 2 * (M / P)"
    using round53_bounds [OF x] round53_nonneg [OF x] by (simp_all add: ratio_def fdiv_def)
  ultimately have ratio: "0 \<le> ratio" "ratio \<le> 4 * M / F" by simp_all
  have s0: "0 \<le> s" by (simp add: s_def fsqrt_nonneg)
  have "s\<^sup>2 \<le> 4 * ratio" unfolding s_def using ratio(1) by (rule fsqrt_sq_le)
  with ratio(2) have s2: "s\<^sup>2 \<le> 16 * M / F" by simp
  have fs: "0 \<le> F * s" using F s0 by simp
  have i0: "0 \<le> ideal" "ideal \<le> 2 * (F * s)"
    using round53_bounds [OF fs] round53_nonneg [OF fs] by (simp_all add: ideal_def fmul_def)
  then have "ideal\<^sup>2 \<le> (2 * (F * s))\<^sup>2" by (intro power_mono)
  also have "\<dots> = 4 * F\<^sup>2 * s\<^sup>2" by (simp add: power_mult_distrib)
  also have "\<dots> \<le> 4 * F\<^sup>2 * (16 * M / F)"
    using s2 F by (intro mult_left_mono) simp_all
  also have "\<dots> = 64 * (F * M)" using F by (simp add: power2_eq_square)
  finally show ?thesis by (simp only: ideal_def s_def ratio_def F_def M_def)
qed

lemma area_half:
  assumes "0 < fw" and "0 < fh"
  shows "(of_int fw :: rat) / 2 \<le> fmul (of_int fw) (of_int fh)"
    and "(of_int fh :: rat) / 2 \<le> fmul (of_int fw) (of_int fh)"
proof -
  have w: "(1 :: rat) \<le> of_int fw" and h: "(1 :: rat) \<le> of_int fh" using assms by simp_all
  have x: "(0 :: rat) \<le> of_int fw * of_int fh" using assms by simp
  have half: "of_int fw * of_int fh / 2 \<le> fmul (of_int fw) (of_int fh)"
    using round53_bounds [OF x] by (simp add: fmul_def)
  have "(of_int fw :: rat) * 1 \<le> of_int fw * of_int fh"
    using w h by (intro mult_left_mono) simp_all
  with half show "(of_int fw :: rat) / 2 \<le> fmul (of_int fw) (of_int fh)" by simp
  have "1 * (of_int fh :: rat) \<le> of_int fw * of_int fh"
    using w h by (intro mult_right_mono) simp_all
  with half show "(of_int fh :: rat) / 2 \<le> fmul (of_int fw) (of_int fh)" by simp
qed

text \<open>
  The start value of the loop for one side: a positive multiple of 16, and at most
  \<open>2^53\<close> for a side below \<open>2^32\<close> and a budget below \<open>2^61\<close>.
\<close>

lemma start_value:
  assumes "0 \<le> ideal"
  shows "\<exists>i. 0 < i \<and> (if align_down ideal 16 = 0 then 16 else align_down ideal 16) = of_int (16 * i)
           \<and> (\<forall>f mp. 0 < f \<longrightarrow> f < 2 ^ 32 \<longrightarrow> 0 \<le> mp \<longrightarrow> mp < 2 ^ 61
                 \<longrightarrow> ideal\<^sup>2 \<le> 64 * (of_int f * of_int mp) \<longrightarrow> 16 * i \<le> 2 ^ 53)"
proof -
  obtain j where j: "0 \<le> j" "align_down ideal 16 = of_int (16 * j)"
    "of_int (16 * j) \<le> 4 * ideal"
    using align_down_whole [OF assms] by blast
  show ?thesis
  proof (cases "j = 0")
    case True
    with j(2) show ?thesis by (intro exI [of _ 1]) simp
  next
    case False
    with j(1) have pos: "0 < j" by simp
    have bound: "16 * j \<le> 2 ^ 53"
      if f: "0 < f" "f < 2 ^ 32" and mp: "0 \<le> mp" "mp < 2 ^ 61"
        and sq: "ideal\<^sup>2 \<le> 64 * (of_int f * of_int mp)" for f mp :: int
    proof (rule ccontr)
      assume "\<not> 16 * j \<le> 2 ^ 53"
      then have "(2 :: int) ^ 53 \<le> 16 * j" by simp
      then have "((2 :: int) ^ 53)\<^sup>2 \<le> (16 * j)\<^sup>2" by (intro power_mono) simp_all
      moreover have "(of_int (16 * j) :: rat)\<^sup>2 \<le> (4 * ideal)\<^sup>2"
        using j(1,3) by (intro power_mono) simp_all
      then have "(of_int ((16 * j)\<^sup>2) :: rat) \<le> 16 * ideal\<^sup>2"
        by (simp add: power_mult_distrib)
      then have "(of_int ((16 * j)\<^sup>2) :: rat) \<le> of_int (1024 * (f * mp))"
        using sq by simp
      then have "(16 * j)\<^sup>2 \<le> 1024 * (f * mp)" by (simp only: of_int_le_iff)
      moreover have "f * mp \<le> 2 ^ 32 * 2 ^ 61"
        using f mp by (intro mult_mono) simp_all
      ultimately show False by simp
    qed
    have "align_down ideal 16 \<noteq> 0" using j(2) False by simp
    with j(2) pos bound show ?thesis by (intro exI [of _ j]) auto
  qed
qed

lemma planner_start:
  assumes "0 < fw" and "0 < fh"
  shows "\<exists>i j. 0 < i \<and> 0 < j
           \<and> resizeWithAspectRatioAndAlign_number fw fh maxPixel 16
               = shrink (of_int (16 * i)) (of_int (16 * j)) (of_int maxPixel) 16
           \<and> (fw < 2 ^ 32 \<longrightarrow> fh < 2 ^ 32 \<longrightarrow> 0 \<le> maxPixel \<longrightarrow> maxPixel < 2 ^ 61
                 \<longrightarrow> 16 * i \<le> 2 ^ 53 \<and> 16 * j \<le> 2 ^ 53)"
proof -
  define scale where "scale = fsqrt (fdiv (of_int maxPixel) (fmul (of_int fw) (of_int fh)))"
  define wIdeal where "wIdeal = fmul (of_int fw) scale"
  define hIdeal where "hIdeal = fmul (of_int fh) scale"
  have scale: "0 \<le> scale" by (simp add: scale_def fsqrt_nonneg)
  have w0: "0 \<le> wIdeal" using assms(1) scale by (simp add: wIdeal_def fmul_def round53_nonneg)
  have h0: "0 \<le> hIdeal" using assms(2) scale by (simp add: hIdeal_def fmul_def round53_nonneg)
  obtain i where i: "0 < i"
    "(if align_down wIdeal 16 = 0 then 16 else align_down wIdeal 16) = of_int (16 * i)"
    "\<And>f mp. 0 < f \<Longrightarrow> f < 2 ^ 32 \<Longrightarrow> 0 \<le> mp \<Longrightarrow> mp < 2 ^ 61
        \<Longrightarrow> wIdeal\<^sup>2 \<le> 64 * (of_int f * of_int mp) \<Longrightarrow> 16 * i \<le> 2 ^ 53"
    using start_value [OF w0] by blast
  obtain j where j: "0 < j"
    "(if align_down hIdeal 16 = 0 then 16 else align_down hIdeal 16) = of_int (16 * j)"
    "\<And>f mp. 0 < f \<Longrightarrow> f < 2 ^ 32 \<Longrightarrow> 0 \<le> mp \<Longrightarrow> mp < 2 ^ 61
        \<Longrightarrow> hIdeal\<^sup>2 \<le> 64 * (of_int f * of_int mp) \<Longrightarrow> 16 * j \<le> 2 ^ 53"
    using start_value [OF h0] by blast
  have "resizeWithAspectRatioAndAlign_number fw fh maxPixel 16
          = shrink (if align_down wIdeal 16 = 0 then 16 else align_down wIdeal 16)
              (if align_down hIdeal 16 = 0 then 16 else align_down hIdeal 16) (of_int maxPixel) 16"
    by (simp add: resizeWithAspectRatioAndAlign_number_def Let_def scale_def wIdeal_def hIdeal_def)
  then have eq: "resizeWithAspectRatioAndAlign_number fw fh maxPixel 16
          = shrink (of_int (16 * i)) (of_int (16 * j)) (of_int maxPixel) 16"
    by (simp only: i(2) j(2))
  have "16 * i \<le> 2 ^ 53 \<and> 16 * j \<le> 2 ^ 53"
    if b: "fw < 2 ^ 32" "fh < 2 ^ 32" "0 \<le> maxPixel" "maxPixel < 2 ^ 61"
  proof
    have "wIdeal\<^sup>2 \<le> 64 * (of_int fw * of_int maxPixel)"
      unfolding wIdeal_def scale_def
      using assms(1) b(3) area_half(1) [OF assms] by (rule ideal_bound)
    then show "16 * i \<le> 2 ^ 53" using i(3) [OF assms(1) b(1) b(3) b(4)] by simp
    have "hIdeal\<^sup>2 \<le> 64 * (of_int fh * of_int maxPixel)"
      unfolding hIdeal_def scale_def
      using assms(2) b(3) area_half(2) [OF assms] by (rule ideal_bound)
    then show "16 * j \<le> 2 ^ 53" using j(3) [OF assms(2) b(2) b(3) b(4)] by simp
  qed
  with i(1) j(1) eq show ?thesis by blast
qed

text \<open>
  Whatever the budget, the Numbers the planner returns for a source with positive
  dimensions are whole: non-negative multiples of 16.
\<close>

lemma planner_integers:
  assumes "0 < fw" and "0 < fh"
    and "resizeWithAspectRatioAndAlign_number fw fh maxPixel 16 = Some (w, h)"
  shows "\<exists>i j. 0 \<le> i \<and> 0 \<le> j \<and> w = of_int (16 * i) \<and> h = of_int (16 * j)"
proof -
  obtain i j where s: "0 < i" "0 < j"
    "resizeWithAspectRatioAndAlign_number fw fh maxPixel 16
       = shrink (of_int (16 * i)) (of_int (16 * j)) (of_int maxPixel) 16"
    using planner_start [OF assms(1,2), of maxPixel] by blast
  have "shrink (of_int (16 * i)) (of_int (16 * j)) (of_int maxPixel) 16 = Some (w, h)"
    using assms(3) s(3) by simp
  from shrink_whole [OF this refl] s(1,2) show ?thesis by blast
qed

lemma planner_nonneg:
  assumes "0 < fw" and "0 < fh"
    and "resizeWithAspectRatioAndAlign fw fh maxPixel 16 = Some (w, h)"
  shows "0 \<le> w \<and> 0 \<le> h \<and> 16 dvd w \<and> 16 dvd h"
proof -
  obtain w' h' where n: "resizeWithAspectRatioAndAlign_number fw fh maxPixel 16 = Some (w', h')"
    and wh: "w = \<lfloor>w'\<rfloor>" "h = \<lfloor>h'\<rfloor>"
    using assms(3) by (auto simp: resizeWithAspectRatioAndAlign_def)
  obtain i j where ij: "0 \<le> i" "0 \<le> j" "w' = of_int (16 * i)" "h' = of_int (16 * j)"
    using planner_integers [OF assms(1,2) n] by blast
  have "w = 16 * i" "h = 16 * j"
    unfolding wh ij(3,4) by (simp_all only: floor_of_int)
  with ij(1,2) show ?thesis by simp
qed

text \<open>
  For a source below \<open>2^32 \<times> 2^32\<close> and a budget below \<open>2^61\<close> every product and
  decrement of the loop is exact or, when rounded, still above the budget: the loop
  returns, with non-negative multiples of 16 within the budget, and a component is 0
  exactly when not even 16 \<times> 16 fits.
\<close>

lemma resize_result:
  assumes "0 < fw" and "fw < 2 ^ 32" and "0 < fh" and "fh < 2 ^ 32"
    and "0 \<le> maxPixel" and "maxPixel < 2 ^ 61"
  shows "\<exists>w h. resizeWithAspectRatioAndAlign_number fw fh maxPixel 16 = Some (of_int w, of_int h)
           \<and> resizeWithAspectRatioAndAlign fw fh maxPixel 16 = Some (w, h)
           \<and> 0 \<le> w \<and> 0 \<le> h \<and> 16 dvd w \<and> 16 dvd h \<and> w * h \<le> maxPixel
           \<and> ((w = 0 \<or> h = 0) \<longleftrightarrow> maxPixel < 256)"
proof -
  obtain i j where s: "0 < i" "0 < j"
    "resizeWithAspectRatioAndAlign_number fw fh maxPixel 16
       = shrink (of_int (16 * i)) (of_int (16 * j)) (of_int maxPixel) 16"
    "16 * i \<le> 2 ^ 53" "16 * j \<le> 2 ^ 53"
    using planner_start [OF assms(1,3), of maxPixel] assms(2,4,5,6) by blast
  obtain w h where r:
    "shrink (of_int (16 * i)) (of_int (16 * j)) (of_int maxPixel) 16 = Some (of_int w, of_int h)"
    "0 \<le> w" "0 \<le> h" "16 dvd w" "16 dvd h" "w * h \<le> maxPixel"
    "(w = 0 \<or> h = 0) \<longleftrightarrow> maxPixel < 256"
    using shrink_result [OF assms(6), of "16 * i" "16 * j"] s(1,2,4,5) assms(5) by auto
  have n: "resizeWithAspectRatioAndAlign_number fw fh maxPixel 16 = Some (of_int w, of_int h)"
    using s(3) r(1) by simp
  then have "resizeWithAspectRatioAndAlign fw fh maxPixel 16 = Some (w, h)"
    by (simp add: resizeWithAspectRatioAndAlign_def)
  with n r(2-) show ?thesis by blast
qed

text \<open>
  C1. The property as the specification states it (for every \<open>fw, fh, maxPixel > 0\<close> the
  planner with \<open>align = 16\<close> returns positive multiples of 16 with \<open>w * h \<le> maxPixel\<close>)
  fails at both ends of the budget range. Below \<open>16 \<times> 16\<close>: a 1 \<times> 1 source with
  \<open>maxPixel = 1\<close>, the smallest budget the configuration accepts, is planned as \<open>(0, 16)\<close>.
  Above \<open>2^61\<close>, where the product \<^verbatim>\<open>w * h\<close> is rounded: with
  \<open>maxPixel = 2^62 + 2^36\<close> the same source is planned as \<open>2^31 + 16\<close> squared, 256 pixels
  above the budget, because the rounded product is the budget itself.
\<close>

theorem planner_positive_counterexample:
  "resizeWithAspectRatioAndAlign 1 1 1 16 = Some (0, 16)
   \<and> resizeWithAspectRatioAndAlign 1 1 (2 ^ 62 + 2 ^ 36) 16 = Some (2 ^ 31 + 16, 2 ^ 31 + 16)
   \<and> (2 ^ 62 + 2 ^ 36 :: int) < (2 ^ 31 + 16) * (2 ^ 31 + 16)"
  by code_simp

text \<open>
  C1, amended. For every \<open>0 < fw, fh < 2^32\<close> and \<open>0 < maxPixel < 2^61\<close> the planner with
  \<open>align = 16\<close> returns a pair \<open>(w, h)\<close> of non-negative multiples of 16 with
  \<open>w * h \<le> maxPixel\<close>; both are positive whenever \<open>maxPixel \<ge> 256\<close>.
\<close>

theorem planner_aligned_within_budget:
  assumes "0 < fw" and "fw < 2 ^ 32" and "0 < fh" and "fh < 2 ^ 32"
    and "0 < maxPixel" and "maxPixel < 2 ^ 61"
  shows "\<exists>w h. resizeWithAspectRatioAndAlign_number fw fh maxPixel 16 = Some (of_int w, of_int h)
           \<and> resizeWithAspectRatioAndAlign fw fh maxPixel 16 = Some (w, h)
           \<and> 0 \<le> w \<and> 0 \<le> h \<and> 16 dvd w \<and> 16 dvd h \<and> w * h \<le> maxPixel
           \<and> (256 \<le> maxPixel \<longrightarrow> 0 < w \<and> 0 < h)"
proof -
  have "0 \<le> maxPixel" using assms(5) by simp
  from resize_result [OF assms(1-4) this assms(6)]
  obtain w h where r:
      "resizeWithAspectRatioAndAlign_number fw fh maxPixel 16 = Some (of_int w, of_int h)"
      "resizeWithAspectRatioAndAlign fw fh maxPixel 16 = Some (w, h)"
      "0 \<le> w" "0 \<le> h" "16 dvd w" "16 dvd h" "w * h \<le> maxPixel"
      "(w = 0 \<or> h = 0) \<longleftrightarrow> maxPixel < 256"
    by blast
  have "256 \<le> maxPixel \<longrightarrow> 0 < w \<and> 0 < h"
    using r(3,4,8) by auto
  with r show ?thesis by blast
qed

theorem planner_aligned_within_budget_witness:
  "\<exists>w h. resizeWithAspectRatioAndAlign_number 200 100 12288 16 = Some (of_int w, of_int h)
     \<and> resizeWithAspectRatioAndAlign 200 100 12288 16 = Some (w, h)
     \<and> 0 < w \<and> 0 < h \<and> 16 dvd w \<and> 16 dvd h \<and> w * h \<le> 12288"
  using planner_aligned_within_budget [of 200 100 12288] by auto

text \<open>
  Further up the loop does not return at all: for a 256 \<times> 256 source and the Number
  \<open>10^35\<close> as budget it starts at \<open>w = h = 316227766016837952\<close>, where \<^verbatim>\<open>w -= 16\<close>
  rounds back to \<open>w\<close>.
\<close>

lemma large_budget_start:
  "align_down (fmul 256 (fsqrt (fdiv 99999999999999996863366107917975552 (fmul 256 256)))) 16
     = 316227766016837952"
  "(99999999999999996863366107917975552 :: rat) < fmul 316227766016837952 316227766016837952"
  "fsub 316227766016837952 16 = 316227766016837952"
  by code_simp+

lemma shrink_stuck:
  assumes "maxPixel < fmul w h" and "h \<le> w" and "fsub w align = w" and "0 < w" and "0 < h"
  shows "shrink w h maxPixel align = None"
proof (cases "shrink w h maxPixel align")
  case None
  then show ?thesis .
next
  case (Some y)
  have "\<not> (w = w \<and> h = h \<and> maxPixel = maxPixel \<and> align = align)"
  proof (rule shrink.raw_induct [where P = "\<lambda>w' h' maxPixel' align' y.
            \<not> (w' = w \<and> h' = h \<and> maxPixel' = maxPixel \<and> align' = align)", OF _ Some])
    fix f :: "rat \<Rightarrow> rat \<Rightarrow> rat \<Rightarrow> rat \<Rightarrow> (rat \<times> rat) option" and w' h' mp a :: rat and y
    assume IH: "\<And>w' h' maxPixel' align' y. f w' h' maxPixel' align' = Some y \<Longrightarrow>
            \<not> (w' = w \<and> h' = h \<and> maxPixel' = maxPixel \<and> align' = align)"
    assume body: "(if mp < fmul w' h'
           then if h' \<le> w'
                then if fsub w' a \<le> 0 \<or> h' \<le> 0 then Some (fsub w' a, h')
                     else f (fsub w' a) h' mp a
                else if w' \<le> 0 \<or> fsub h' a \<le> 0 then Some (w', fsub h' a)
                     else f w' (fsub h' a) mp a
           else Some (w', h')) = Some y"
    show "\<not> (w' = w \<and> h' = h \<and> mp = maxPixel \<and> a = align)"
    proof
      assume "w' = w \<and> h' = h \<and> mp = maxPixel \<and> a = align"
      with body assms have "f w h maxPixel align = Some y" by simp
      from IH [OF this] show False by simp
    qed
  qed
  then show ?thesis by simp
qed

lemma planner_does_not_return:
  "resizeWithAspectRatioAndAlign 256 256 99999999999999996863366107917975552 16 = None"
proof -
  have "resizeWithAspectRatioAndAlign_number 256 256 99999999999999996863366107917975552 16
          = shrink 316227766016837952 316227766016837952 99999999999999996863366107917975552 16"
    by (simp add: resizeWithAspectRatioAndAlign_number_def Let_def large_budget_start(1))
  also have "\<dots> = None"
    using large_budget_start(2,3) by (intro shrink_stuck) simp_all
  finally show ?thesis by (simp add: resizeWithAspectRatioAndAlign_def)
qed

text \<open>
  The bound on the source is needed as well: a source of \<open>2^60 \<times> 1\<close> pixels with
  \<open>maxPixel = 2^60\<close> starts the loop at \<open>w = 2^60\<close>, \<open>h = 16\<close>, and \<^verbatim>\<open>w -= 16\<close> rounds back to
  \<open>w\<close>.
\<close>

lemma large_source_start:
  "align_down (fmul 1152921504606846976
      (fsqrt (fdiv 1152921504606846976 (fmul 1152921504606846976 1)))) 16 = 1152921504606846976"
  "align_down (fmul 1 (fsqrt (fdiv 1152921504606846976 (fmul 1152921504606846976 1)))) 16 = 0"
  "(1152921504606846976 :: rat) < fmul 1152921504606846976 16"
  "fsub 1152921504606846976 16 = 1152921504606846976"
  by code_simp+

lemma planner_large_source:
  "resizeWithAspectRatioAndAlign 1152921504606846976 1 1152921504606846976 16 = None"
proof -
  have "resizeWithAspectRatioAndAlign_number 1152921504606846976 1 1152921504606846976 16
          = shrink 1152921504606846976 16 1152921504606846976 16"
    by (simp add: resizeWithAspectRatioAndAlign_number_def Let_def large_source_start(1,2))
  also have "\<dots> = None"
    using large_source_start(3,4) by (intro shrink_stuck) simp_all
  finally show ?thesis by (simp add: resizeWithAspectRatioAndAlign_def)
qed

text \<open>
  C6. The specification's property (two square sources with the same \<open>maxPixel\<close> are
  always planned alike) does not hold of the code: with \<open>maxPixel = 16384 = 128\<^sup>2\<close> a 64 \<times> 64 source is
  planned as 128 \<times> 128 and a 65 \<times> 65 source as 112 \<times> 112, because the computed
  \<^verbatim>\<open>65 * Math.sqrt(16384 / (65 * 65))\<close> is the Number just below 128. The same happens
  with \<open>maxPixel = 9216 = 96\<^sup>2\<close> for sources of side 1 and 17.
\<close>

theorem square_sources_planned_differently:
  "resizeWithAspectRatioAndAlign 64 64 16384 16 = Some (128, 128)
   \<and> resizeWithAspectRatioAndAlign 65 65 16384 16 = Some (112, 112)
   \<and> resizeWithAspectRatioAndAlign 1 1 9216 16 = Some (96, 96)
   \<and> resizeWithAspectRatioAndAlign 17 17 9216 16 = Some (80, 80)"
  by code_simp

text \<open>The two examples the specification gives for square sources do hold.\<close>

lemma square_examples:
  "resizeWithAspectRatioAndAlign 256 256 12288 16 = Some (96, 96)
   \<and> resizeWithAspectRatioAndAlign 1024 1024 12288 16 = Some (96, 96)"
  by code_simp

lemma ideal_side_power_of_two:
  assumes "f = 2 ^ k"
  shows "fmul (of_int f) (fsqrt (fdiv (of_int maxPixel) (fmul (of_int f) (of_int f))))
           = fsqrt (round53 (of_int maxPixel))"
proof -
  define b where "b = round53 (of_int maxPixel)"
  have side: "(of_int (2 ^ k) :: rat) = pow2 (int k)" by (simp add: pow2_def)
  have area: "fmul (of_int (2 ^ k)) (of_int (2 ^ k)) = pow2 (2 * int k)"
  proof -
    have "round53 (of_int 1 * pow2 (2 * int k)) = of_int 1 * pow2 (2 * int k)"
      by (intro round53_significand) simp_all
    then have "round53 (pow2 (2 * int k)) = pow2 (2 * int k)" by simp
    moreover have "pow2 (int k) * pow2 (int k) = pow2 (2 * int k)"
      using pow2_add [of "int k" "int k"] by simp
    ultimately show ?thesis by (simp only: fmul_def side)
  qed
  have ratio: "fdiv (of_int maxPixel) (pow2 (2 * int k)) = b * pow2 (2 * (- int k))"
  proof -
    have "of_int maxPixel / pow2 (2 * int k) = of_int maxPixel * pow2 (2 * (- int k))"
      using pow2_neg [of "2 * int k"] by simp
    then show ?thesis by (simp add: fdiv_def round53_scale b_def)
  qed
  have scale: "fsqrt (b * pow2 (2 * (- int k))) = fsqrt b * pow2 (- int k)"
  proof (cases "0 < b")
    case True
    then show ?thesis by (rule fsqrt_scale)
  next
    case False
    then have "b * pow2 (2 * (- int k)) \<le> 0"
      using pow2_pos [of "2 * (- int k)"] by (simp add: mult_le_0_iff not_less)
    with False show ?thesis by (simp add: fsqrt_def)
  qed
  show ?thesis
  proof -
    have cancel: "pow2 (int k) * (fsqrt b * pow2 (- int k)) = fsqrt b"
      using pow2_pos [of "int k"] by (simp add: pow2_neg)
    have "fmul (of_int (2 ^ k)) (fsqrt (fdiv (of_int maxPixel) (fmul (of_int (2 ^ k)) (of_int (2 ^ k)))))
            = fmul (of_int (2 ^ k)) (fsqrt b * pow2 (- int k))"
      by (simp only: area ratio scale)
    also have "\<dots> = round53 (pow2 (int k) * (fsqrt b * pow2 (- int k)))"
      by (simp only: fmul_def side)
    also have "\<dots> = round53 (fsqrt b)" by (simp only: cancel)
    also have "\<dots> = fsqrt b" by (rule round53_fsqrt)
    finally show ?thesis by (simp only: assms b_def)
  qed
qed

text \<open>
  Squares whose side is a power of two are planned like the 1 \<times> 1 source: for them the
  scaling is exact (in binary64 itself as long as the area \<open>4^k\<close> and the budget are
  finite Numbers).
\<close>

lemma power_of_two_squares:
  "resizeWithAspectRatioAndAlign (2 ^ k) (2 ^ k) maxPixel align
     = resizeWithAspectRatioAndAlign 1 1 maxPixel align"
proof -
  have a: "fmul (of_int (2 ^ k)) (fsqrt (fdiv (of_int maxPixel) (fmul (of_int (2 ^ k)) (of_int (2 ^ k)))))
             = fsqrt (round53 (of_int maxPixel))"
    by (rule ideal_side_power_of_two [OF refl])
  have b: "fmul (of_int 1) (fsqrt (fdiv (of_int maxPixel) (fmul (of_int 1) (of_int 1))))
             = fsqrt (round53 (of_int maxPixel))"
    by (rule ideal_side_power_of_two [of 1 0]) simp
  show ?thesis
    by (simp only: resizeWithAspectRatioAndAlign_def resizeWithAspectRatioAndAlign_number_def
        Let_def a b)
qed

section \<open>Properties of the Mip Generator\<close>

lemma mipRow_length:
  "int (length (mipRow indexedPixels w level y x)) = max 0 ((w - x + 2 ^ level - 1) div 2 ^ level)"
proof (induction indexedPixels w level y x rule: mipRow.induct)
  case (1 indexedPixels w level y x)
  have s: "(0::int) < 2 ^ level" by simp
  show ?case
  proof (cases "x < w")
    case True
    have "(w - x + 2 ^ level - 1) div 2 ^ level = (w - x - 1) div 2 ^ level + 1"
      using div_add_self2 [of "2 ^ level :: int" "w - x - 1"] by (simp add: algebra_simps)
    moreover have "0 \<le> (w - x - 1) div 2 ^ level"
      using True s by (simp add: pos_imp_zdiv_nonneg_iff)
    moreover have "w - (x + 2 ^ level) + 2 ^ level - 1 = w - x - 1" by simp
    ultimately show ?thesis
      using True "1.IH" by (subst mipRow.simps) simp
  next
    case False
    then have "(w - x + 2 ^ level - 1) div 2 ^ level \<le> (2 ^ level - 1) div 2 ^ level"
      using s by (intro zdiv_mono1) simp_all
    then have "(w - x + 2 ^ level - 1) div 2 ^ level \<le> 0"
      by (simp add: div_pos_pos_trivial)
    with False show ?thesis by (subst mipRow.simps) simp
  qed
qed

lemma mipRows_length:
  "int (length (mipRows indexedPixels w h level y))
     = max 0 ((h - y + 2 ^ level - 1) div 2 ^ level) * max 0 ((w + 2 ^ level - 1) div 2 ^ level)"
proof (induction indexedPixels w h level y rule: mipRows.induct)
  case (1 indexedPixels w h level y)
  have s: "(0::int) < 2 ^ level" by simp
  show ?case
  proof (cases "y < h")
    case True
    have "(h - y + 2 ^ level - 1) div 2 ^ level = (h - y - 1) div 2 ^ level + 1"
      using div_add_self2 [of "2 ^ level :: int" "h - y - 1"] by (simp add: algebra_simps)
    moreover have "0 \<le> (h - y - 1) div 2 ^ level"
      using True s by (simp add: pos_imp_zdiv_nonneg_iff)
    moreover have "h - (y + 2 ^ level) + 2 ^ level - 1 = h - y - 1" by simp
    ultimately show ?thesis
      using True "1.IH" mipRow_length [of indexedPixels w level y 0]
      by (subst mipRows.simps) (simp add: algebra_simps)
  next
    case False
    then have "(h - y + 2 ^ level - 1) div 2 ^ level \<le> (2 ^ level - 1) div 2 ^ level"
      using s by (intro zdiv_mono1) simp_all
    then have "(h - y + 2 ^ level - 1) div 2 ^ level \<le> 0"
      by (simp add: div_pos_pos_trivial)
    with False show ?thesis by (subst mipRows.simps) simp
  qed
qed

lemma ceiling_div_pow2:
  "\<lceil>real_of_int w / 2 ^ k\<rceil> = (w + 2 ^ k - 1) div 2 ^ k"
proof -
  define s :: int where "s = 2 ^ k"
  define d where "d = (w + s - 1) div s"
  define m where "m = (w + s - 1) mod s"
  have s: "0 < s" by (simp add: s_def)
  have eq: "d * s + m = w + s - 1" by (simp add: d_def m_def)
  have m: "0 \<le> m" "m < s" using s by (simp_all add: m_def)
  have "w \<le> d * s" using eq m by linarith
  then have "real_of_int w \<le> of_int d * of_int s"
    by (metis of_int_le_iff of_int_mult)
  then have up: "real_of_int w / of_int s \<le> of_int d"
    using s by (simp add: pos_divide_le_eq)
  have "(d - 1) * s < w" using eq m by (simp add: algebra_simps)
  then have "(of_int d - 1) * of_int s < real_of_int w"
    by (metis of_int_less_iff of_int_mult of_int_diff of_int_1)
  then have lo: "of_int d - 1 < real_of_int w / of_int s"
    using s by (simp add: pos_less_divide_eq)
  have "\<lceil>real_of_int w / of_int s\<rceil> = d"
    using lo up by (rule ceiling_unique)
  then show ?thesis by (simp add: s_def d_def)
qed
lemma mipLevel_length:
  "int (length (mipLevel indexedPixels w h level))
     = max 0 ((h + 2 ^ level - 1) div 2 ^ level) * max 0 ((w + 2 ^ level - 1) div 2 ^ level)"
  using mipRows_length [of indexedPixels w h level 0] by (simp add: mipLevel_def)

lemma mipsData_nth:
  assumes "k < 4"
  shows "mipsData indexedPixels w h ! k = Buffer_from (mipLevel indexedPixels w h k)"
proof -
  from assms have "k = 0 \<or> k = 1 \<or> k = 2 \<or> k = 3" by arith
  then show ?thesis by (auto simp: mipsData_def)
qed

lemma length_Buffer_from [simp]: "length (Buffer_from buf) = length buf"
  by (simp add: Buffer_from_def)

text \<open>
  C5. For a base buffer of dimensions \<open>(w, h)\<close> with \<open>w, h > 0\<close>, the buffer of level
  \<open>k\<close> in \<open>0..3\<close> has length \<open>ceil(w / 2^k) * ceil(h / 2^k)\<close>; the level-0 buffer has length
  \<open>w * h\<close>.
\<close>

theorem mip_buffer_length:
  assumes "0 < w" and "0 < h" and "k < 4"
  shows "int (length (mipsData indexedPixels w h ! k))
           = \<lceil>real_of_int w / 2 ^ k\<rceil> * \<lceil>real_of_int h / 2 ^ k\<rceil>
         \<and> int (length (mipsData indexedPixels w h ! 0)) = w * h"
proof -
  have nonneg: "0 \<le> (n + 2 ^ j - 1) div 2 ^ j" if "0 < n" for n :: int and j :: nat
  proof -
    have "(0::int) < 2 ^ j" by simp
    with that have "0 \<le> n + 2 ^ j - 1" by linarith
    then show ?thesis by (simp add: pos_imp_zdiv_nonneg_iff)
  qed
  have len: "int (length (mipsData indexedPixels w h ! j))
               = ((w + 2 ^ j - 1) div 2 ^ j) * ((h + 2 ^ j - 1) div 2 ^ j)" if "j < 4" for j
    using that nonneg [OF assms(1), of j] nonneg [OF assms(2), of j]
    by (simp add: mipsData_nth mipLevel_length max_def)
  show ?thesis
    using len [OF assms(3)] len [of 0] by (simp add: ceiling_div_pow2)
qed

theorem mip_buffer_length_witness:
  "(0::int) < 96 \<and> (0::int) < 80 \<and> (3::nat) < 4
   \<and> int (length (mipsData [] 96 80 ! 3)) = \<lceil>real_of_int 96 / 2 ^ 3\<rceil> * \<lceil>real_of_int 80 / 2 ^ 3\<rceil>
   \<and> int (length (mipsData [] 96 80 ! 0)) = 96 * 80"
  using mip_buffer_length [of 96 80 3 "[]"] by simp

section \<open>Properties of the index buffers\<close>

lemma nth_or_255_cases: "nth_or_255 indexedPixels idx = 255 \<or> nth_or_255 indexedPixels idx \<in> set indexedPixels"
  by (simp add: nth_or_255_def)

lemma set_mipRow: "set (mipRow indexedPixels w level y x) \<subseteq> insert 255 (set indexedPixels)"
proof (induction indexedPixels w level y x rule: mipRow.induct)
  case (1 indexedPixels w level y x)
  show ?case
  proof (cases "x < w")
    case True
    with "1.IH" nth_or_255_cases [of indexedPixels "y * w + x"] show ?thesis
      by (subst mipRow.simps) auto
  next
    case False
    then show ?thesis by (subst mipRow.simps) simp
  qed
qed

lemma set_mipRows: "set (mipRows indexedPixels w h level y) \<subseteq> insert 255 (set indexedPixels)"
proof (induction indexedPixels w h level y rule: mipRows.induct)
  case (1 indexedPixels w h level y)
  show ?case
  proof (cases "y < h")
    case True
    with "1.IH" set_mipRow [of indexedPixels w level y 0] show ?thesis
      by (subst mipRows.simps) auto
  next
    case False
    then show ?thesis by (subst mipRows.simps) simp
  qed
qed

lemma set_mipLevel: "set (mipLevel indexedPixels w h level) \<subseteq> insert 255 (set indexedPixels)"
  by (simp add: mipLevel_def set_mipRows)

lemma findIndex_from_range:
  "findIndex_from P xs i = - 1
   \<or> (i \<le> findIndex_from P xs i \<and> findIndex_from P xs i < i + int (length xs))"
  by (induction xs arbitrary: i) (auto, force+)

lemma pixelIndex_range:
  "0 \<le> pixelIndex rgbaPalette c \<and> pixelIndex rgbaPalette c < max 256 (int (length rgbaPalette))"
  using findIndex_from_range [of "\<lambda>c'. c' = c" rgbaPalette 0]
  by (auto simp: pixelIndex_def findIndex_def)

lemma uint_byte_of_index:
  assumes "0 \<le> v" and "v \<le> 255"
  shows "uint (word_of_int v :: byte) = v"
  using assms by (simp add: uint_word_of_int)

text \<open>
  C7. When every pixel of the reduced buffer has alpha at most 128, the base index buffer
  holds only 255, and so does every one of the four mip buffers.
\<close>

theorem transparent_image_all_255:
  assumes "\<forall>c \<in> set (pixels pixelData). alpha_le_128 c"
  shows "buildIndexedPixels pixelData = replicate (length (pixels pixelData)) 255
         \<and> (\<forall>k < 4. \<forall>v \<in> set (mipsData (buildIndexedPixels pixelData) w h ! k). v = 255)"
proof -
  have base: "buildIndexedPixels pixelData = replicate (length (pixels pixelData)) 255"
    using assms by (simp add: buildIndexedPixels_def pixelIndex_def map_replicate_const [symmetric])
  have lvl: "set (mipLevel (buildIndexedPixels pixelData) w h k) \<subseteq> {255}" for k
    using set_mipLevel [of "buildIndexedPixels pixelData" w h k] by (auto simp: base)
  have "set (Buffer_from (mipLevel (buildIndexedPixels pixelData) w h k)) \<subseteq> {255}" for k
    using image_mono [OF lvl [of k], of word_of_int] by (simp add: Buffer_from_def)
  then have "\<forall>v \<in> set (mipsData (buildIndexedPixels pixelData) w h ! k). v = 255" if "k < 4" for k
    using that by (auto simp: mipsData_nth)
  with base show ?thesis by blast
qed

theorem transparent_image_all_255_witness:
  "buildIndexedPixels [10, 20, 30, 0, 40, 50, 60, 128] = [255, 255]
   \<and> list_all (\<lambda>v. v = 255)
         (mipsData (buildIndexedPixels [10, 20, 30, 0, 40, 50, 60, 128]) 16 16 ! 3)"
proof -
  have h: "\<forall>c \<in> set (pixels [10, 20, 30, 0, 40, 50, 60, 128]). alpha_le_128 c"
    by (simp add: alpha_le_128_def)
  have less_three: "(3::nat) < 4" by simp
  note t = transparent_image_all_255 [OF h, of 16 16]
  have "buildIndexedPixels [10, 20, 30, 0, 40, 50, 60, 128] = [255, 255]"
    using conjunct1 [OF t] by simp
  moreover have "\<forall>v \<in> set (mipsData (buildIndexedPixels [10, 20, 30, 0, 40, 50, 60, 128]) 16 16 ! 3).
      v = 255"
    using conjunct2 [OF t] less_three by blast
  ultimately show ?thesis by (simp only: list_all_iff)
qed

text \<open>
  C8. Given that the palette has 256 entries, every value of the base index buffer and of
  the four mip buffers lies in \<open>[0, 255]\<close>; the bytes of a mip buffer are then exactly the
  values sampled for it.
\<close>

theorem index_values_in_byte_range:
  assumes "length (buildPalette pixelData) = 256"
  shows "(\<forall>v \<in> set (buildIndexedPixels pixelData). 0 \<le> v \<and> v \<le> 255)
         \<and> (\<forall>k < 4. \<forall>v \<in> set (mipLevel (buildIndexedPixels pixelData) w h k). 0 \<le> v \<and> v \<le> 255)
         \<and> (\<forall>k < 4. map uint (mipsData (buildIndexedPixels pixelData) w h ! k)
                        = mipLevel (buildIndexedPixels pixelData) w h k)"
proof -
  have base: "0 \<le> v \<and> v \<le> 255" if "v \<in> set (buildIndexedPixels pixelData)" for v
  proof -
    from that obtain c where "v = pixelIndex (buildPalette pixelData) c"
      by (auto simp: buildIndexedPixels_def)
    with pixelIndex_range [of "buildPalette pixelData" c] assms show ?thesis by simp
  qed
  have mip: "0 \<le> v \<and> v \<le> 255"
    if "v \<in> set (mipLevel (buildIndexedPixels pixelData) w h k)" for v k
    using that set_mipLevel [of "buildIndexedPixels pixelData" w h k] base by auto
  have "map uint (mipsData (buildIndexedPixels pixelData) w h ! k)
          = mipLevel (buildIndexedPixels pixelData) w h k" if "k < 4" for k
    using that mip [of _ k]
    by (simp add: mipsData_nth Buffer_from_def uint_byte_of_index map_idI)
  with base mip show ?thesis by blast
qed

theorem index_values_in_byte_range_witness:
  "length (buildPalette [10, 20, 30, 255, 40, 50, 60, 0]) = 256
   \<and> list_all (\<lambda>v. 0 \<le> v \<and> v \<le> 255) (buildIndexedPixels [10, 20, 30, 255, 40, 50, 60, 0])
   \<and> list_all (\<lambda>v. 0 \<le> v \<and> v \<le> 255)
         (mipLevel (buildIndexedPixels [10, 20, 30, 255, 40, 50, 60, 0]) 16 16 2)"
proof -
  have h: "length (buildPalette [10, 20, 30, 255, 40, 50, 60, 0]) = 256"
    by code_simp
  have less_two: "(2::nat) < 4" by simp
  note t = index_values_in_byte_range [OF h, of 16 16]
  have "\<forall>v \<in> set (mipLevel (buildIndexedPixels [10, 20, 30, 255, 40, 50, 60, 0]) 16 16 2).
         0 \<le> v \<and> v \<le> 255"
    using conjunct1 [OF conjunct2 [OF t]] less_two by blast
  with h conjunct1 [OF t] show ?thesis by (simp only: list_all_iff)
qed

section \<open>Properties of the palette\<close>

lemma remdups_snoc:
  "remdups (ys @ [c]) = remdups (filter (\<lambda>y. y \<noteq> c) ys) @ [c]"
  by (induction ys) auto

text \<open>The key of a colour determines the colour.\<close>

lemma digit_value_char_of: "d < 10 \<Longrightarrow> digit_value (char_of (48 + d)) = d"
  by (simp add: digit_value_def)

lemma read_show_nat: "read_nat (show_nat n) = n"
proof (induction n rule: show_nat.induct)
  case (1 n)
  show ?case
  proof (cases "n < 10")
    case True
    then show ?thesis
      by (subst show_nat.simps) (simp add: read_nat_def digit_value_char_of)
  next
    case False
    have "n mod 10 < 10" by simp
    then have "digit_value (char_of (48 + n mod 10)) = n mod 10"
      by (rule digit_value_char_of)
    then show ?thesis
      using False "1.IH" by (subst show_nat.simps) (simp add: read_nat_def)
  qed
qed

lemma show_nat_inj: "show_nat n = show_nat m \<Longrightarrow> n = m"
  by (metis read_show_nat)

lemma show_nat_digits:
  "c \<in> set (show_nat n) \<Longrightarrow> 48 \<le> (of_char c :: nat) \<and> (of_char c :: nat) \<le> 57"
proof (induction n rule: show_nat.induct)
  case (1 n)
  show ?case
  proof (cases "n < 10")
    case True
    with "1.prems" show ?thesis by (subst (asm) show_nat.simps) auto
  next
    case False
    have "n mod 10 < 10" by simp
    with False "1.prems" "1.IH" show ?thesis
      by (subst (asm) show_nat.simps) auto
  qed
qed

lemma show_nat_nonempty: "show_nat n \<noteq> []"
  by (subst show_nat.simps) simp

lemma comma_not_in_component: "CHR '','' \<notin> set (show_component c)"
proof (cases c)
  case None
  then show ?thesis by (simp add: show_component_def)
next
  case (Some v)
  then show ?thesis
    using show_nat_digits [of "CHR '',''" "unat v"] by (auto simp: show_component_def)
qed

lemma show_nat_not_undefined: "show_nat n \<noteq> ''undefined''"
proof
  assume "show_nat n = ''undefined''"
  then have "CHR ''u'' \<in> set (show_nat n)" by simp
  from show_nat_digits [OF this] show False by simp
qed

lemma show_component_inj:
  assumes "show_component c = show_component c'"
  shows "c = c'"
proof (cases c)
  case None
  show ?thesis
  proof (cases c')
    case (Some v')
    with None assms show ?thesis
      using show_nat_not_undefined [of "unat v'"] by (simp add: show_component_def)
  qed (simp add: None)
next
  case (Some v)
  show ?thesis
  proof (cases c')
    case None
    with Some assms show ?thesis
      using show_nat_not_undefined [of "unat v"] by (simp add: show_component_def)
  next
    case (Some v')
    with \<open>c = Some v\<close> assms have "show_nat (unat v) = show_nat (unat v')"
      by (simp add: show_component_def)
    then have "unat v = unat v'" by (rule show_nat_inj)
    then have "v = v'" by (rule word_unat_eq_iff [THEN iffD2])
    then show ?thesis using Some \<open>c = Some v\<close> by simp
  qed
qed

lemma split_at_separator:
  assumes "s \<notin> set xs" and "s \<notin> set ys" and "xs @ s # r = ys @ s # r'"
  shows "xs = ys \<and> r = r'"
  using assms
proof (induction xs arbitrary: ys)
  case Nil
  then show ?case by (cases ys) auto
next
  case (Cons x xs)
  then show ?case by (cases ys) auto
qed

lemma color_key_inj: "color_key c = color_key c' \<Longrightarrow> c = c'"
proof -
  obtain r g b a where c: "c = (r, g, b, a)" by (cases c)
  obtain r' g' b' a' where c': "c' = (r', g', b', a')" by (cases c')
  assume "color_key c = color_key c'"
  then have 1: "show_component r @ CHR '','' # (show_component g @ CHR '','' # (show_component b @ CHR '','' # show_component a))
      = show_component r' @ CHR '','' # (show_component g' @ CHR '','' # (show_component b' @ CHR '','' # show_component a'))"
    by (simp add: color_key_def c c')
  note 2 = split_at_separator [OF comma_not_in_component comma_not_in_component 1]
  note 3 = split_at_separator [OF comma_not_in_component comma_not_in_component conjunct2 [OF 2]]
  note 4 = split_at_separator [OF comma_not_in_component comma_not_in_component conjunct2 [OF 3]]
  from 2 3 4 show ?thesis
    by (simp add: c c' show_component_inj)
qed

lemma color_key_example:
  "color_key (Some 10, Some 255, Some 0, None) = ''10,255,0,undefined''"
  by code_simp

lemma color_key_mem: "color_key c \<in> color_key ` S \<longleftrightarrow> c \<in> S"
  using color_key_inj by blast

text \<open>
  The first scan appends the colours not yet in the palette, each once, in the order of
  their first occurrence.
\<close>

lemma scan_colors_first_seen:
  "scan_colors cs (p, color_key ` set p)
     = (p @ rev (remdups (rev (filter (\<lambda>c. c \<notin> set p) cs))), color_key ` (set p \<union> set cs))"
proof (induction cs arbitrary: p)
  case Nil
  then show ?case by simp
next
  case (Cons c cs)
  show ?case
  proof (cases "c \<in> set p")
    case True
    then have "set p \<union> set (c # cs) = set p \<union> set cs" by auto
    then show ?thesis using True Cons.IH [of p] by (simp add: color_key_mem)
  next
    case False
    have K: "rev (filter (\<lambda>x. x \<notin> set (p @ [c])) cs)
               = filter (\<lambda>y. y \<noteq> c) (rev (filter (\<lambda>x. x \<notin> set p) cs))"
      by (auto simp: rev_filter intro: filter_cong)
    have "scan_colors cs (p @ [c], color_key ` set (p @ [c]))
            = ((p @ [c]) @ rev (remdups (filter (\<lambda>y. y \<noteq> c) (rev (filter (\<lambda>x. x \<notin> set p) cs)))),
               color_key ` (set (p @ [c]) \<union> set cs))"
      using Cons.IH [of "p @ [c]"] unfolding K .
    then show ?thesis
      using False by (simp add: remdups_snoc color_key_mem)
  qed
qed

lemma pad_palette_eq:
  "pad_palette p = p @ replicate (255 - length p) black"
proof (induction p rule: pad_palette.induct)
  case (1 p)
  show ?case
  proof (cases "length p < 255")
    case True
    then have "255 - length p = Suc (255 - length (p @ [black]))" by simp
    then show ?thesis
      using True "1.IH" by (subst pad_palette.simps) (simp add: replicate_app_Cons_same)
  next
    case False
    then show ?thesis by (subst pad_palette.simps) simp
  qed
qed

lemma buildPalette_eq:
  "buildPalette pixelData
     = rev (remdups (rev (pixels pixelData)))
       @ replicate (255 - card (set (pixels pixelData))) black @ [transparent_key]"
proof -
  have "length (rev (remdups (rev (pixels pixelData)))) = card (set (pixels pixelData))"
    using distinct_card [of "remdups (rev (pixels pixelData))"] by simp
  then show ?thesis
    using scan_colors_first_seen [of "pixels pixelData" "[]"]
    by (simp add: buildPalette_def pad_palette_eq)
qed

text \<open>
  C4. When the reduced buffer has at most 255 distinct colours, the palette has exactly
  256 entries, entry 255 is \<open>(0, 0, 255, 255)\<close>, the first entries are the colours of the
  buffer, each once, in the order of their first occurrence, and all entries after them
  up to index 254 are the padding \<open>(0, 0, 0, 255)\<close>.
\<close>

theorem palette_layout:
  assumes "card (set (pixels pixelData)) \<le> 255"
  shows "length (buildPalette pixelData) = 256
         \<and> buildPalette pixelData ! 255 = (Some 0, Some 0, Some 255, Some 255)
         \<and> take (card (set (pixels pixelData))) (buildPalette pixelData)
             = rev (remdups (rev (pixels pixelData)))
         \<and> (\<forall>i < 255. buildPalette pixelData ! i \<in> set (pixels pixelData)
                        \<or> buildPalette pixelData ! i = (Some 0, Some 0, Some 0, Some 255))
         \<and> (\<forall>i < 255. card (set (pixels pixelData)) \<le> i
                        \<longrightarrow> buildPalette pixelData ! i = (Some 0, Some 0, Some 0, Some 255))"
proof -
  define seen where "seen = rev (remdups (rev (pixels pixelData)))"
  define n where "n = card (set (pixels pixelData))"
  have len: "length seen = n"
    using distinct_card [of "remdups (rev (pixels pixelData))"] by (simp add: seen_def n_def)
  have set: "set seen = set (pixels pixelData)" by (simp add: seen_def)
  have eq: "buildPalette pixelData = seen @ replicate (255 - n) black @ [transparent_key]"
    by (simp add: buildPalette_eq seen_def n_def)
  have n: "n \<le> 255" using assms by (simp add: n_def)
  have 1: "length (buildPalette pixelData) = 256" using n by (simp add: eq len)
  have 2: "buildPalette pixelData ! 255 = (Some 0, Some 0, Some 255, Some 255)"
    using n by (simp add: eq len nth_append transparent_key_def)
  have 3: "take n (buildPalette pixelData) = seen" by (simp add: eq len)
  have 4: "buildPalette pixelData ! i \<in> set (pixels pixelData)" if "i < n" for i
    using that len set nth_mem [of i seen] by (simp add: eq nth_append)
  have 5: "buildPalette pixelData ! i = (Some 0, Some 0, Some 0, Some 255)"
    if "n \<le> i" "i < 255" for i
  proof -
    from that have "i - n < 255 - n" by arith
    with that show ?thesis by (simp add: eq len nth_append black_def)
  qed
  from 4 5 have 6: "\<forall>i < 255. buildPalette pixelData ! i \<in> set (pixels pixelData)
                        \<or> buildPalette pixelData ! i = (Some 0, Some 0, Some 0, Some 255)"
    by (metis not_le)
  from 1 2 3 5 6 show ?thesis unfolding seen_def n_def by blast
qed

theorem palette_layout_witness:
  "card (set (pixels [1, 2, 3, 255, 9, 9, 9, 0, 1, 2, 3, 255])) \<le> 255
   \<and> length (buildPalette [1, 2, 3, 255, 9, 9, 9, 0, 1, 2, 3, 255]) = 256
   \<and> buildPalette [1, 2, 3, 255, 9, 9, 9, 0, 1, 2, 3, 255] ! 255
       = (Some 0, Some 0, Some 255, Some 255)
   \<and> take 2 (buildPalette [1, 2, 3, 255, 9, 9, 9, 0, 1, 2, 3, 255])
       = [(Some 1, Some 2, Some 3, Some 255), (Some 9, Some 9, Some 9, Some 0)]"
proof -
  have n: "card (set (pixels [1, 2, 3, 255, 9, 9, 9, 0, 1, 2, 3, 255])) = 2"
    by code_simp
  then have h: "card (set (pixels [1, 2, 3, 255, 9, 9, 9, 0, 1, 2, 3, 255])) \<le> 255"
    by simp
  note t = palette_layout [OF h]
  have "take 2 (buildPalette [1, 2, 3, 255, 9, 9, 9, 0, 1, 2, 3, 255])
       = [(Some 1, Some 2, Some 3, Some 255), (Some 9, Some 9, Some 9, Some 0)]"
    using conjunct1 [OF conjunct2 [OF conjunct2 [OF t]]] unfolding n by simp
  with h conjunct1 [OF t] conjunct1 [OF conjunct2 [OF t]] show ?thesis by blast
qed

section \<open>Properties of the WAD3 Serializer\<close>

lemma length_write_bytes [simp]: "length (write_bytes buf bs offset) = length buf"
  by (simp add: write_bytes_def)

lemma nth_write_bytes:
  assumes "offset + length bs \<le> length buf" and "i < length buf"
  shows "write_bytes buf bs offset ! i
           = (if offset \<le> i \<and> i < offset + length bs then bs ! (i - offset) else buf ! i)"
  using assms by (auto simp: write_bytes_def nth_append min_def)

lemma split_base_256:
  fixes n :: int
  shows "n = n mod 256 + 256 * (n div 256)"
  by simp

lemma uint_le32:
  assumes "0 \<le> v" and "v \<le> 4294967295"
  shows "uint (le32 v ! 0) + 256 * uint (le32 v ! 1) + 65536 * uint (le32 v ! 2)
           + 16777216 * uint (le32 v ! 3) = v"
proof -
  define b0 where "b0 = v mod 256"
  define b1 where "b1 = v div 256 mod 256"
  define b2 where "b2 = v div 65536 mod 256"
  define b3 where "b3 = v div 16777216"
  have "v div 16777216 < 256" using assms by simp
  moreover have "0 \<le> v div 16777216" using assms by simp
  ultimately have top: "b3 mod 256 = b3" by (simp add: b3_def)
  have d2: "v div 65536 = v div 256 div 256"
    using zdiv_zmult2_eq [of 256 v 256] by simp
  have d3: "v div 16777216 = v div 65536 div 256"
    using zdiv_zmult2_eq [of 256 v 65536] by simp
  have "v = b0 + 256 * (v div 256)"
    unfolding b0_def by (rule split_base_256)
  moreover have "v div 256 = b1 + 256 * (v div 65536)"
    unfolding b1_def d2 by (rule split_base_256)
  moreover have "v div 65536 = b2 + 256 * b3"
    unfolding b2_def b3_def d3 by (rule split_base_256)
  ultimately have sum: "b0 + 256 * b1 + 65536 * b2 + 16777216 * b3 = v"
    by linarith
  have "uint (le32 v ! 0) = b0" "uint (le32 v ! 1) = b1" "uint (le32 v ! 2) = b2"
    by (simp_all add: le32_def uint_word_of_int b0_def b1_def b2_def)
  moreover have "uint (le32 v ! 3) = b3"
    using top by (simp add: le32_def uint_word_of_int b3_def)
  ultimately show ?thesis
    using sum by (simp only:)
qed

lemma readUInt32LE_write_same:
  assumes "writeUInt32LE buf v offset = Inr buf'"
  shows "length buf' = length buf \<and> readUInt32LE buf' offset = Inr v"
proof -
  from assms have v: "0 \<le> v" "v \<le> 4294967295" and fit: "offset + 4 \<le> length buf"
    and eq: "buf' = write_bytes buf (le32 v) offset"
    by (auto simp: writeUInt32LE_def split: if_splits)
  have len: "length (le32 v) = 4" by (simp add: le32_def)
  have "buf' ! (offset + j) = le32 v ! j" if "j < 4" for j
    using that fit len by (simp add: eq nth_write_bytes)
  from this [of 0] this [of 1] this [of 2] this [of 3] uint_le32 [OF v] fit
  show ?thesis by (simp add: readUInt32LE_def eq)
qed

lemma readUInt32LE_write_other:
  assumes "writeUInt32LE buf v offset = Inr buf'"
    and "offset' + 4 \<le> offset \<or> offset + 4 \<le> offset'" and "offset' + 4 \<le> length buf"
  shows "readUInt32LE buf' offset' = readUInt32LE buf offset'"
proof -
  from assms have fit: "offset + 4 \<le> length buf"
    and eq: "buf' = write_bytes buf (le32 v) offset"
    by (auto simp: writeUInt32LE_def split: if_splits)
  have len: "length (le32 v) = 4" by (simp add: le32_def)
  have same: "buf' ! (offset' + j) = buf ! (offset' + j)" if "j < 4" for j
    using that fit len assms(2,3) by (auto simp: eq nth_write_bytes)
  have "length buf' = length buf" by (simp add: eq)
  with same [of 0] same [of 1] same [of 2] same [of 3] show ?thesis
    by (simp add: readUInt32LE_def)
qed

lemma and_then_Inr:
  "and_then r f = Inr y \<longleftrightarrow> (\<exists>x. r = Inr x \<and> f x = Inr y)"
  by (cases r) (simp_all add: and_then_def)

lemma and_then_Inl:
  "and_then r f = Inl e \<longleftrightarrow> r = Inl e \<or> (\<exists>x. r = Inr x \<and> f x = Inl e)"
  by (cases r) (simp_all add: and_then_def)

lemma writeUInt32LE_length:
  "writeUInt32LE buf v offset = Inr buf' \<Longrightarrow> length buf' = length buf"
  by (auto simp: writeUInt32LE_def split: if_splits)

lemma writeUInt32LE_fits:
  "writeUInt32LE buf v offset = Inr buf' \<Longrightarrow> offset + 4 \<le> length buf"
  by (auto simp: writeUInt32LE_def split: if_splits)

lemma write_mip_offsets_fields:
  assumes "write_mip_offsets mipsSizes i offset header = Inr header'"
  shows "length header' = length header
         \<and> (\<forall>j < length mipsSizes.
               readUInt32LE header' (36 + (i + j) * 4)
                 = Inr (offset + sum_list (take j mipsSizes)))
         \<and> (\<forall>p. p + 4 \<le> 36 + i * 4 \<longrightarrow> readUInt32LE header' p = readUInt32LE header p)"
  using assms
proof (induction mipsSizes arbitrary: i offset header)
  case Nil
  then show ?case by simp
next
  case (Cons s mipsSizes)
  from Cons.prems obtain h1 where
    w: "writeUInt32LE header offset (36 + i * 4) = Inr h1" and
    r: "write_mip_offsets mipsSizes (i + 1) (offset + s) h1 = Inr header'"
    by (auto simp: and_then_Inr)
  note ih = Cons.IH [OF r]
  have len: "length header' = length header"
    using ih writeUInt32LE_length [OF w] by simp
  have fit: "36 + i * 4 + 4 \<le> length header"
    using writeUInt32LE_fits [OF w] .
  have keep: "readUInt32LE header' p = readUInt32LE h1 p" if "p + 4 \<le> 36 + (i + 1) * 4" for p
    using ih that by blast
  have first: "readUInt32LE header' (36 + i * 4) = Inr offset"
    using keep [of "36 + i * 4"] readUInt32LE_write_same [OF w] by simp
  have later: "readUInt32LE header' (36 + (i + Suc j) * 4)
                 = Inr (offset + sum_list (take (Suc j) (s # mipsSizes)))"
    if "j < length mipsSizes" for j
  proof -
    have "readUInt32LE header' (36 + (i + 1 + j) * 4)
            = Inr (offset + s + sum_list (take j mipsSizes))"
      using ih that by blast
    then show ?thesis by (simp add: algebra_simps)
  qed
  have fields: "readUInt32LE header' (36 + (i + j) * 4)
                   = Inr (offset + sum_list (take j (s # mipsSizes)))"
    if "j < length (s # mipsSizes)" for j
    using that first later by (cases j) simp_all
  have untouched: "readUInt32LE header' p = readUInt32LE header p" if "p + 4 \<le> 36 + i * 4" for p
  proof -
    have "readUInt32LE header' p = readUInt32LE h1 p" using that by (intro keep) simp
    also have "\<dots> = readUInt32LE header p"
      using that fit by (intro readUInt32LE_write_other [OF w]) simp_all
    finally show ?thesis .
  qed
  from len fields untouched show ?case by blast
qed

lemma wad_header_fields:
  assumes "wad_header w h [s0, s1, s2, s3] = Inr header"
  shows "length header = 52
         \<and> readUInt32LE header 36 = Inr 40
         \<and> readUInt32LE header 40 = Inr (40 + s0)
         \<and> readUInt32LE header 44 = Inr (40 + s0 + s1)
         \<and> readUInt32LE header 48 = Inr (40 + s0 + s1 + s2)"
proof -
  from assms obtain h1 h2 h3 where
    1: "writeUInt32LE (write_bytes (replicate 52 0) (ascii ''WAD3'') 0) 1 4 = Inr h1" and
    2: "writeUInt32LE (write_bytes h1 logo_name 12) w 28 = Inr h2" and
    3: "writeUInt32LE h2 h 32 = Inr h3" and
    4: "write_mip_offsets [s0, s1, s2, s3] 0 40 h3 = Inr header"
    unfolding wad_header_def and_then_Inr by blast
  have len: "length h3 = 52"
    using writeUInt32LE_length [OF 1] writeUInt32LE_length [OF 2] writeUInt32LE_length [OF 3]
    by simp
  note f = write_mip_offsets_fields [OF 4]
  have fld: "readUInt32LE header (36 + (0 + j) * 4)
               = Inr (40 + sum_list (take j [s0, s1, s2, s3]))"
    if "j < 4" for j
    using f that by simp
  from fld [of 0] fld [of 1] fld [of 2] fld [of 3] f len show ?thesis
    by (simp add: numeral_eq_Suc)
qed

lemma length_write_palette [simp]:
  "length (write_palette rgbaPalette is buf) = length buf"
  by (induction "is" arbitrary: buf) simp_all

lemma length_paletteBuf [simp]: "length (paletteBuf rgbaPalette) = 768"
  by (simp add: paletteBuf_def)

lemma writeUInt8_length:
  "writeUInt8 buf v offset = Inr buf' \<Longrightarrow> length buf' = length buf"
  by (auto simp: writeUInt8_def split: if_splits)

lemma writeUInt16LE_length:
  "writeUInt16LE buf v offset = Inr buf' \<Longrightarrow> length buf' = length buf"
  by (auto simp: writeUInt16LE_def split: if_splits)

lemma lump_entry_length:
  assumes "lump_entry mainDataEnd = Inr lump"
  shows "length lump = 32"
proof -
  from assms obtain l1 l2 l3 l4 l5 l6 where
    "writeUInt32LE (replicate 32 0) 12 0 = Inr l1"
    "writeUInt32LE l1 (mainDataEnd - 40) 4 = Inr l2"
    "writeUInt32LE l2 (mainDataEnd - 40) 8 = Inr l3"
    "writeUInt8 l3 0x43 12 = Inr l4"
    "writeUInt8 l4 0 13 = Inr l5"
    "writeUInt16LE l5 0 14 = Inr l6"
    "lump = write_bytes l6 logo_name 16"
    unfolding lump_entry_def and_then_Inr by blast
  then show ?thesis
    by (auto dest!: writeUInt32LE_length writeUInt8_length writeUInt16LE_length)
qed

lemma requiredPadding_4: "0 \<le> requiredPadding n 4 \<and> requiredPadding n 4 < 4"
  by (simp add: requiredPadding_def) presburger

lemma length_concat_int:
  "int (length (concat bufs)) = sum_list (map (\<lambda>buf. int (length buf)) bufs)"
  by (induction bufs) simp_all

lemma readUInt32LE_append:
  "offset + 4 \<le> length buf \<Longrightarrow> readUInt32LE (buf @ rest) offset = readUInt32LE buf offset"
  by (simp add: readUInt32LE_def nth_append)

lemma wad_header_length:
  assumes "wad_header w h mipsSizes = Inr header"
  shows "length header = 52"
proof -
  from assms obtain h1 h2 h3 where
    1: "writeUInt32LE (write_bytes (replicate 52 0) (ascii ''WAD3'') 0) 1 4 = Inr h1" and
    2: "writeUInt32LE (write_bytes h1 logo_name 12) w 28 = Inr h2" and
    3: "writeUInt32LE h2 h 32 = Inr h3" and
    4: "write_mip_offsets mipsSizes 0 40 h3 = Inr header"
    unfolding wad_header_def and_then_Inr by blast
  show ?thesis
    using writeUInt32LE_length [OF 1] writeUInt32LE_length [OF 2] writeUInt32LE_length [OF 3]
      write_mip_offsets_fields [OF 4]
    by simp
qed

text \<open>
  The layout of a serialized file: the header's fields survive, the directory offset is
  the length of everything before the 32-byte directory entry.
\<close>

lemma wad3_serialize_layout:
  assumes "wad3_serialize rgbaPalette mips w h = Inr out"
  shows "\<exists>header. wad_header w h (map (\<lambda>buf. int (length buf)) mips) = Inr header
           \<and> readUInt32LE out 8 = Inr (int (length out) - 32)
           \<and> 32 \<le> length out
           \<and> (\<forall>p. 12 \<le> p \<and> p + 4 \<le> length header
                  \<longrightarrow> readUInt32LE out p = readUInt32LE header p)"
proof -
  define mipsSizes where "mipsSizes = map (\<lambda>buf. int (length buf)) mips"
  define currentLength where "currentLength = 52 + sum_list mipsSizes + 4 + 256 * 3"
  define pad where "pad = requiredPadding currentLength 4"
  define mainDataEnd where "mainDataEnd = currentLength + pad"
  from assms obtain header lump where
    hd: "wad_header w h mipsSizes = Inr header" and
    lu: "lump_entry mainDataEnd = Inr lump" and
    fin: "writeUInt32LE
           (concat ([header] @ mips @ [[0, 1, 0, 0], paletteBuf rgbaPalette]
                    @ (if pad > 0 then [replicate (nat pad) 0] else []) @ [lump]))
           mainDataEnd 8 = Inr out"
    unfolding wad3_serialize_def Let_def and_then_Inr
      mipsSizes_def [symmetric] currentLength_def [symmetric] pad_def [symmetric]
      mainDataEnd_def [symmetric]
    by blast
  define rest where "rest = concat (mips @ [[0, 1, 0, 0], paletteBuf rgbaPalette]
                    @ (if pad > 0 then [replicate (nat pad) 0] else []) @ [lump])"
  have full: "concat ([header] @ mips @ [[0, 1, 0, 0], paletteBuf rgbaPalette]
                    @ (if pad > 0 then [replicate (nat pad) 0] else []) @ [lump]) = header @ rest"
    by (simp add: rest_def)
  have hlen: "length header = 52"
    using wad_header_length [OF hd] .
  have pad: "0 \<le> pad" using requiredPadding_4 [of currentLength] by (simp add: pad_def)
  have rlen: "int (length rest) = sum_list mipsSizes + 4 + 768 + pad + 32"
    using pad lump_entry_length [OF lu]
    by (simp add: rest_def length_concat_int mipsSizes_def)
  have total: "int (length (header @ rest)) = mainDataEnd + 32"
    using hlen rlen by (simp add: mainDataEnd_def currentLength_def)
  have olen: "length out = length (header @ rest)"
    using writeUInt32LE_length [OF fin] unfolding full .
  have a: "readUInt32LE out 8 = Inr (int (length out) - 32)"
    using readUInt32LE_write_same [OF fin] total olen by simp
  have b: "readUInt32LE out p = readUInt32LE header p" if "12 \<le> p" "p + 4 \<le> length header" for p
  proof -
    have "readUInt32LE out p = readUInt32LE (header @ rest) p"
    proof (rule readUInt32LE_write_other [OF fin [unfolded full]])
      show "p + 4 \<le> 8 \<or> 8 + 4 \<le> p" using that by simp
      show "p + 4 \<le> length (header @ rest)" using that by simp
    qed
    then show ?thesis using that by (simp add: readUInt32LE_append)
  qed
  have c: "32 \<le> length out"
    using hlen olen by simp
  from hd a b c show ?thesis
    unfolding mipsSizes_def by (intro exI [of _ header]) auto
qed

lemma writeUInt32LE_ok:
  assumes "0 \<le> v" and "v \<le> 4294967295" and "offset + 4 \<le> length buf"
  shows "\<exists>buf'. writeUInt32LE buf v offset = Inr buf' \<and> length buf' = length buf"
  using assms by (simp add: writeUInt32LE_def)

lemma write_mip_offsets_ok:
  assumes "36 + (i + length mipsSizes) * 4 \<le> length header" and "0 \<le> offset"
    and "\<forall>s \<in> set mipsSizes. 0 \<le> s" and "offset + sum_list mipsSizes \<le> 4294967295"
  shows "\<exists>header'. write_mip_offsets mipsSizes i offset header = Inr header'"
  using assms
proof (induction mipsSizes arbitrary: i offset header)
  case Nil
  then show ?case by simp
next
  case (Cons s mipsSizes)
  have nonneg: "0 \<le> sum_list mipsSizes"
    using Cons.prems(3) by (intro sum_list_nonneg) simp
  have "offset \<le> 4294967295"
    using Cons.prems(3,4) nonneg by simp
  moreover have "36 + i * 4 + 4 \<le> length header"
    using Cons.prems(1) by simp
  ultimately obtain h1 where
    w: "writeUInt32LE header offset (36 + i * 4) = Inr h1" and len: "length h1 = length header"
    using writeUInt32LE_ok [of offset "36 + i * 4" header] Cons.prems(2) by auto
  have "\<exists>header'. write_mip_offsets mipsSizes (i + 1) (offset + s) h1 = Inr header'"
    using Cons.prems by (intro Cons.IH) (simp_all add: len algebra_simps)
  with w show ?case by (simp add: and_then_Inr)
qed

lemma wad_header_ok:
  assumes "0 \<le> w" and "w \<le> 4294967295" and "0 \<le> h" and "h \<le> 4294967295"
    and "length mipsSizes \<le> 4" and "\<forall>s \<in> set mipsSizes. 0 \<le> s"
    and "40 + sum_list mipsSizes \<le> 4294967295"
  shows "\<exists>header. wad_header w h mipsSizes = Inr header"
proof -
  obtain h1 where 1: "writeUInt32LE (write_bytes (replicate 52 0) (ascii ''WAD3'') 0) 1 4 = Inr h1"
      and l1: "length h1 = 52"
    using writeUInt32LE_ok [of 1 4 "write_bytes (replicate 52 0) (ascii ''WAD3'') 0"] by auto
  obtain h2 where 2: "writeUInt32LE (write_bytes h1 logo_name 12) w 28 = Inr h2"
      and l2: "length h2 = 52"
    using writeUInt32LE_ok [of w 28 "write_bytes h1 logo_name 12"] assms(1,2) l1 by auto
  obtain h3 where 3: "writeUInt32LE h2 h 32 = Inr h3" and l3: "length h3 = 52"
    using writeUInt32LE_ok [of h 32 h2] assms(3,4) l2 by auto
  obtain header where "write_mip_offsets mipsSizes 0 40 h3 = Inr header"
    using write_mip_offsets_ok [of 0 mipsSizes h3 40] assms(5-7) l3 by auto
  with 1 2 3 show ?thesis by (simp add: wad_header_def and_then_Inr)
qed

lemma lump_entry_ok:
  assumes "40 \<le> mainDataEnd" and "mainDataEnd \<le> 4294967295"
  shows "\<exists>lump. lump_entry mainDataEnd = Inr lump"
proof -
  obtain l1 where 1: "writeUInt32LE (replicate 32 0) 12 0 = Inr l1" and n1: "length l1 = 32"
    using writeUInt32LE_ok [of 12 0 "replicate 32 0"] by auto
  obtain l2 where 2: "writeUInt32LE l1 (mainDataEnd - 40) 4 = Inr l2" and n2: "length l2 = 32"
    using writeUInt32LE_ok [of "mainDataEnd - 40" 4 l1] assms n1 by auto
  obtain l3 where 3: "writeUInt32LE l2 (mainDataEnd - 40) 8 = Inr l3" and n3: "length l3 = 32"
    using writeUInt32LE_ok [of "mainDataEnd - 40" 8 l2] assms n2 by auto
  show ?thesis
    using 1 2 3 n3
    by (simp add: lump_entry_def and_then_Inr writeUInt8_def writeUInt16LE_def)
qed

lemma wad3_serialize_ok:
  assumes "0 \<le> w" and "w \<le> 4294967295" and "0 \<le> h" and "h \<le> 4294967295"
    and "length mips \<le> 4" and "int (length (concat mips)) + 827 \<le> 4294967295"
  shows "\<exists>out. wad3_serialize rgbaPalette mips w h = Inr out"
proof -
  define mipsSizes where "mipsSizes = map (\<lambda>buf. int (length buf)) mips"
  define currentLength where "currentLength = 52 + sum_list mipsSizes + 4 + 256 * 3"
  define pad where "pad = requiredPadding currentLength 4"
  define mainDataEnd where "mainDataEnd = currentLength + pad"
  have total: "sum_list mipsSizes = int (length (concat mips))"
    by (simp add: mipsSizes_def length_concat_int)
  have pad: "0 \<le> pad" "pad < 4"
    using requiredPadding_4 [of currentLength] by (simp_all add: pad_def)
  have end_range: "40 \<le> mainDataEnd" "mainDataEnd \<le> 4294967295"
    using pad assms(6) by (simp_all add: mainDataEnd_def currentLength_def total)
  obtain header where hd: "wad_header w h mipsSizes = Inr header"
    using wad_header_ok [of w h mipsSizes] assms
    by (auto simp: total) (auto simp: mipsSizes_def)
  obtain lump where lu: "lump_entry mainDataEnd = Inr lump"
    using lump_entry_ok [OF end_range] by blast
  have "8 + 4 \<le> length (concat ([header] @ mips @ [[0, 1, 0, 0], paletteBuf rgbaPalette]
                    @ (if pad > 0 then [replicate (nat pad) 0] else []) @ [lump]))"
    using wad_header_length [OF hd] by simp
  moreover have "0 \<le> mainDataEnd" using end_range by simp
  ultimately obtain out where
    "writeUInt32LE (concat ([header] @ mips @ [[0, 1, 0, 0], paletteBuf rgbaPalette]
                    @ (if pad > 0 then [replicate (nat pad) 0] else []) @ [lump]))
       mainDataEnd 8 = Inr out"
    using writeUInt32LE_ok [of mainDataEnd 8] end_range(2) by blast
  with hd lu show ?thesis
    unfolding wad3_serialize_def Let_def and_then_Inr
      mipsSizes_def [symmetric] currentLength_def [symmetric] pad_def [symmetric]
      mainDataEnd_def [symmetric]
    by blast
qed

section \<open>Properties of generateWad3Spray\<close>

lemma writeUInt32LE_error: "writeUInt32LE buf v offset = Inl e \<Longrightarrow> e = RangeError"
  by (auto simp: writeUInt32LE_def split: if_splits)

lemma writeUInt16LE_error: "writeUInt16LE buf v offset = Inl e \<Longrightarrow> e = RangeError"
  by (auto simp: writeUInt16LE_def split: if_splits)

lemma writeUInt8_error: "writeUInt8 buf v offset = Inl e \<Longrightarrow> e = RangeError"
  by (auto simp: writeUInt8_def split: if_splits)

lemma write_mip_offsets_error:
  "write_mip_offsets mipsSizes i offset header = Inl e \<Longrightarrow> e = RangeError"
  by (induction mipsSizes arbitrary: i offset header)
    (auto simp: and_then_Inl dest: writeUInt32LE_error)

lemma wad_header_error: "wad_header w h mipsSizes = Inl e \<Longrightarrow> e = RangeError"
  unfolding wad_header_def and_then_Inl
  by (auto dest: writeUInt32LE_error write_mip_offsets_error)

lemma lump_entry_error: "lump_entry mainDataEnd = Inl e \<Longrightarrow> e = RangeError"
  unfolding lump_entry_def and_then_Inl
  by (auto dest: writeUInt32LE_error writeUInt16LE_error writeUInt8_error)

text \<open>The serializer fails in one way only: a value does not fit its field.\<close>

lemma wad3_serialize_error:
  assumes "wad3_serialize rgbaPalette mips w h = Inl e"
  shows "e = RangeError"
  using assms unfolding wad3_serialize_def Let_def and_then_Inl
  by (auto dest: wad_header_error lump_entry_error writeUInt32LE_error)

lemma generateWad3Spray_Inr:
  assumes "generateWad3Spray metadata quantize maxPixiel = Some (Inr out)"
  shows "\<exists>fw fh w h pixelData. metadata = Some (Some fw, Some fh) \<and> 0 < fw \<and> 0 < fh
           \<and> resizeWithAspectRatioAndAlign (int fw) (int fh) maxPixiel 16 = Some (w, h)
           \<and> w \<noteq> 0 \<and> h \<noteq> 0 \<and> quantize w h = Some pixelData
           \<and> wad3_serialize (buildPalette pixelData)
                (mipsData (buildIndexedPixels pixelData) w h) w h = Inr out"
  using assms
  by (auto simp: generateWad3Spray_def falsy_def split: option.splits if_splits prod.splits)

lemma planner_on_metadata:
  assumes "0 < fw" and "fw < 2 ^ 32" and "0 < fh" and "fh < 2 ^ 32"
    and "0 \<le> maxPixiel" and "maxPixiel < 2 ^ 61"
  shows "\<exists>w h. resizeWithAspectRatioAndAlign (int fw) (int fh) maxPixiel 16 = Some (w, h)
           \<and> 0 \<le> w \<and> 0 \<le> h \<and> 16 dvd w \<and> 16 dvd h \<and> w * h \<le> maxPixiel
           \<and> ((w = 0 \<or> h = 0) \<longleftrightarrow> maxPixiel < 256)"
proof -
  have "int fw < 2 ^ 32" "int fh < 2 ^ 32"
    using assms(2,4) by (simp_all only: of_nat_less_numeral_power_cancel_iff)
  moreover have "0 < int fw" "0 < int fh" using assms(1,3) by simp_all
  ultimately show ?thesis
    using resize_result [of "int fw" "int fh" maxPixiel] assms(5,6) by blast
qed

lemma mipLevel_length_le:
  assumes "0 < w" and "0 < h"
  shows "int (length (mipLevel indexedPixels w h level)) \<le> w * h"
proof -
  have s: "(1::int) \<le> 2 ^ level" by simp
  have shrink: "(n + 2 ^ level - 1) div 2 ^ level \<le> n \<and> 0 \<le> (n + 2 ^ level - 1) div 2 ^ level"
    if "0 < n" for n :: int
  proof -
    have "(n - 1) * 1 \<le> (n - 1) * 2 ^ level"
      using that s by (intro mult_left_mono) simp_all
    then have "n + 2 ^ level - 1 \<le> n * 2 ^ level" by (simp add: algebra_simps)
    then have "(n + 2 ^ level - 1) div 2 ^ level \<le> n * 2 ^ level div 2 ^ level"
      by (intro zdiv_mono1) simp_all
    moreover have "0 \<le> n + 2 ^ level - 1" using that s by linarith
    ultimately show ?thesis by (simp add: pos_imp_zdiv_nonneg_iff)
  qed
  have "((h + 2 ^ level - 1) div 2 ^ level) * ((w + 2 ^ level - 1) div 2 ^ level) \<le> h * w"
    using shrink [OF assms(1)] shrink [OF assms(2)] by (intro mult_mono) simp_all
  then show ?thesis
    using shrink [OF assms(1)] shrink [OF assms(2)]
    by (simp add: mipLevel_length max_def mult.commute)
qed

lemma length_concat_mipsData:
  assumes "0 < w" and "0 < h"
  shows "length (mipsData indexedPixels w h) = 4
         \<and> int (length (concat (mipsData indexedPixels w h))) \<le> 4 * (w * h)"
  using mipLevel_length_le [OF assms, of indexedPixels 0]
    mipLevel_length_le [OF assms, of indexedPixels 1]
    mipLevel_length_le [OF assms, of indexedPixels 2]
    mipLevel_length_le [OF assms, of indexedPixels 3]
  by (simp add: mipsData_def)

text \<open>
  The encoder returns a file for every decodable source with positive dimensions below
  \<open>2^32\<close> and every budget from 256 up to \<open>10\<^sup>9\<close> pixels.
\<close>

lemma generateWad3Spray_succeeds:
  assumes "0 < fw" and "0 < fh" and "256 \<le> maxPixiel" and "maxPixiel \<le> 1000000000"
    and "\<forall>w h. quantize w h \<noteq> None" and "fw < 2 ^ 32" and "fh < 2 ^ 32"
  shows "\<exists>out. generateWad3Spray (Some (Some fw, Some fh)) quantize maxPixiel = Some (Inr out)"
proof -
  obtain w h where r: "resizeWithAspectRatioAndAlign (int fw) (int fh) maxPixiel 16 = Some (w, h)"
    and nonneg: "0 \<le> w" "0 \<le> h" and area: "w * h \<le> maxPixiel"
    and nz: "w \<noteq> 0" "h \<noteq> 0"
    using planner_on_metadata [OF assms(1,6,2,7), of maxPixiel] assms(3,4) by auto
  obtain pixelData where q: "quantize w h = Some pixelData"
    using assms(5) by auto
  have pos: "0 < w" "0 < h" using nonneg nz by simp_all
  have "w * 1 \<le> w * h" using pos by (intro mult_left_mono) simp_all
  then have w: "w \<le> 4294967295" using area assms(4) by simp
  have "1 * h \<le> w * h" using pos by (intro mult_right_mono) simp_all
  then have h: "h \<le> 4294967295" using area assms(4) by simp
  have mips: "length (mipsData (buildIndexedPixels pixelData) w h) \<le> 4"
    "int (length (concat (mipsData (buildIndexedPixels pixelData) w h))) + 827 \<le> 4294967295"
    using length_concat_mipsData [OF pos, of "buildIndexedPixels pixelData"] area assms(4)
    by simp_all
  obtain out where "wad3_serialize (buildPalette pixelData)
      (mipsData (buildIndexedPixels pixelData) w h) w h = Inr out"
    using wad3_serialize_ok [OF nonneg(1) w nonneg(2) h mips] by blast
  then show ?thesis
    using assms(1,2) r nz q by (simp add: generateWad3Spray_def falsy_def)
qed



text \<open>
  C3. In every file the encoder returns, the four little-endian 32-bit fields at byte
  offsets 36, 40, 44 and 48 are 40, 40 + len(mip0), 40 + len(mip0) + len(mip1) and
  40 + len(mip0) + len(mip1) + len(mip2), for the four mip buffers built from the planned
  dimensions and the reduced pixel buffer.
\<close>

theorem mip_offset_fields:
  assumes "generateWad3Spray metadata quantize maxPixiel = Some (Inr out)"
  shows "\<exists>fw fh w h pixelData mip0 mip1 mip2 mip3.
           metadata = Some (Some fw, Some fh)
           \<and> resizeWithAspectRatioAndAlign (int fw) (int fh) maxPixiel 16 = Some (w, h)
           \<and> quantize w h = Some pixelData
           \<and> mipsData (buildIndexedPixels pixelData) w h = [mip0, mip1, mip2, mip3]
           \<and> readUInt32LE out 36 = Inr 40
           \<and> readUInt32LE out 40 = Inr (40 + int (length mip0))
           \<and> readUInt32LE out 44 = Inr (40 + int (length mip0) + int (length mip1))
           \<and> readUInt32LE out 48
               = Inr (40 + int (length mip0) + int (length mip1) + int (length mip2))"
proof -
  obtain fw fh w h pixelData where
    m: "metadata = Some (Some fw, Some fh)" and
    r: "resizeWithAspectRatioAndAlign (int fw) (int fh) maxPixiel 16 = Some (w, h)" and
    q: "quantize w h = Some pixelData" and
    s: "wad3_serialize (buildPalette pixelData) (mipsData (buildIndexedPixels pixelData) w h) w h
          = Inr out"
    using generateWad3Spray_Inr [OF assms] by blast
  obtain mip0 mip1 mip2 mip3 where
    mips: "mipsData (buildIndexedPixels pixelData) w h = [mip0, mip1, mip2, mip3]"
    by (simp add: mipsData_def)
  obtain header where
    hd: "wad_header w h [int (length mip0), int (length mip1), int (length mip2), int (length mip3)]
           = Inr header" and
    keep: "\<And>p. 12 \<le> p \<Longrightarrow> p + 4 \<le> length header
             \<Longrightarrow> readUInt32LE out p = readUInt32LE header p"
    using wad3_serialize_layout [OF s] unfolding mips by auto
  note f = wad_header_fields [OF hd]
  have "readUInt32LE out p = readUInt32LE header p" if "p \<in> {36, 40, 44, 48}" for p
    using that f by (intro keep) auto
  with f have "readUInt32LE out 36 = Inr 40"
    "readUInt32LE out 40 = Inr (40 + int (length mip0))"
    "readUInt32LE out 44 = Inr (40 + int (length mip0) + int (length mip1))"
    "readUInt32LE out 48
               = Inr (40 + int (length mip0) + int (length mip1) + int (length mip2))"
    by simp_all
  with m r q mips show ?thesis by blast
qed

theorem mip_offset_fields_witness:
  "\<exists>out. generateWad3Spray (Some (Some 640, Some 480)) white_image 12288 = Some (Inr out)
     \<and> (\<exists>fw fh w h pixelData mip0 mip1 mip2 mip3.
           Some (Some 640, Some 480) = Some (Some fw, Some fh)
           \<and> resizeWithAspectRatioAndAlign (int fw) (int fh) 12288 16 = Some (w, h)
           \<and> white_image w h = Some pixelData
           \<and> mipsData (buildIndexedPixels pixelData) w h = [mip0, mip1, mip2, mip3]
           \<and> readUInt32LE out 36 = Inr 40
           \<and> readUInt32LE out 40 = Inr (40 + int (length mip0))
           \<and> readUInt32LE out 44 = Inr (40 + int (length mip0) + int (length mip1))
           \<and> readUInt32LE out 48
               = Inr (40 + int (length mip0) + int (length mip1) + int (length mip2)))"
proof -
  obtain out where
    run: "generateWad3Spray (Some (Some 640, Some 480)) white_image 12288 = Some (Inr out)"
    using generateWad3Spray_succeeds [of 640 480 12288 white_image]
    by (auto simp: white_image_def)
  show ?thesis
    using run mip_offset_fields [OF run] by (intro exI [of _ out] conjI)
qed

lemma errors_of_decoded_source:
  shows "(generateWad3Spray (Some (fw, fh)) quantize maxPixiel = Some (Inl InvalidImage)
            \<longleftrightarrow> fw = None \<or> fw = Some 0 \<or> fh = None \<or> fh = Some 0)
         \<and> (generateWad3Spray (Some (fw, fh)) quantize maxPixiel = Some (Inl InvalidImageSize)
            \<longleftrightarrow> (\<exists>fw' fh' w h. fw = Some fw' \<and> fh = Some fh' \<and> 0 < fw' \<and> 0 < fh'
                   \<and> resizeWithAspectRatioAndAlign (int fw') (int fh') maxPixiel 16 = Some (w, h)
                   \<and> (w \<le> 0 \<or> h \<le> 0)))
         \<and> (\<forall>e. generateWad3Spray (Some (fw, fh)) quantize maxPixiel = Some (Inl e)
                \<longrightarrow> (\<nexists>out. generateWad3Spray (Some (fw, fh)) quantize maxPixiel = Some (Inr out)))"
proof (cases "falsy fw \<or> falsy fh")
  case True
  then have "generateWad3Spray (Some (fw, fh)) quantize maxPixiel = Some (Inl InvalidImage)"
    by (simp add: generateWad3Spray_def)
  with True show ?thesis by (auto simp: falsy_def)
next
  case False
  then obtain fw' fh' where dims: "fw = Some fw'" "fh = Some fh'" "0 < fw'" "0 < fh'"
    by (auto simp: falsy_def)
  show ?thesis
  proof (cases "resizeWithAspectRatioAndAlign (int fw') (int fh') maxPixiel 16")
    case None
    then have "generateWad3Spray (Some (fw, fh)) quantize maxPixiel = None"
      using dims by (simp add: generateWad3Spray_def falsy_def)
    with None dims show ?thesis by auto
  next
    case (Some wh)
    obtain w h where "wh = (w, h)" by (cases wh)
    with Some have r: "resizeWithAspectRatioAndAlign (int fw') (int fh') maxPixiel 16 = Some (w, h)"
      by simp
    have nonneg: "0 \<le> w" "0 \<le> h"
      using planner_nonneg [OF _ _ r] dims(3,4) by simp_all
    have zero: "w \<le> 0 \<or> h \<le> 0 \<longleftrightarrow> w = 0 \<or> h = 0"
      using nonneg by auto
    show ?thesis
    proof (cases "w = 0 \<or> h = 0")
      case True
      then have "generateWad3Spray (Some (fw, fh)) quantize maxPixiel = Some (Inl InvalidImageSize)"
        using dims r by (simp add: generateWad3Spray_def falsy_def)
      with True dims r zero show ?thesis by auto
    next
      case nz: False
      show ?thesis
      proof (cases "quantize w h")
        case None
        then have "generateWad3Spray (Some (fw, fh)) quantize maxPixiel = Some (Inl DecodeFailure)"
          using dims r nz by (simp add: generateWad3Spray_def falsy_def)
        with nz dims r zero show ?thesis by auto
      next
        case (Some pixelData)
        then have run: "generateWad3Spray (Some (fw, fh)) quantize maxPixiel
            = Some (wad3_serialize (buildPalette pixelData)
                      (mipsData (buildIndexedPixels pixelData) w h) w h)"
          using dims r nz by (simp add: generateWad3Spray_def falsy_def)
        have "wad3_serialize (buildPalette pixelData)
                (mipsData (buildIndexedPixels pixelData) w h) w h \<noteq> Inl InvalidImage"
          "wad3_serialize (buildPalette pixelData)
                (mipsData (buildIndexedPixels pixelData) w h) w h \<noteq> Inl InvalidImageSize"
          using wad3_serialize_error by fastforce+
        with run nz dims r zero show ?thesis by auto
      qed
    qed
  qed
qed

text \<open>
  C9. For \<open>maxPixiel \<ge> 0\<close>: the encoder fails with 'Invalid image' exactly when the
  source is decoded and its width or height is missing or zero; it fails with
  'Invalid image size' exactly when the dimensions are present and positive and the
  planner's result has a component that is not positive; and a run that fails returns no
  buffer.
\<close>

theorem fatal_errors:
  assumes "0 \<le> maxPixiel"
  shows "(generateWad3Spray metadata quantize maxPixiel = Some (Inl InvalidImage)
            \<longleftrightarrow> (\<exists>fw fh. metadata = Some (fw, fh)
                   \<and> (fw = None \<or> fw = Some 0 \<or> fh = None \<or> fh = Some 0)))
         \<and> (generateWad3Spray metadata quantize maxPixiel = Some (Inl InvalidImageSize)
            \<longleftrightarrow> (\<exists>fw fh w h. metadata = Some (Some fw, Some fh) \<and> 0 < fw \<and> 0 < fh
                   \<and> resizeWithAspectRatioAndAlign (int fw) (int fh) maxPixiel 16 = Some (w, h)
                   \<and> (w \<le> 0 \<or> h \<le> 0)))
         \<and> (\<forall>e. generateWad3Spray metadata quantize maxPixiel = Some (Inl e)
                \<longrightarrow> (\<nexists>out. generateWad3Spray metadata quantize maxPixiel = Some (Inr out)))"
proof (cases metadata)
  case None
  then have "generateWad3Spray metadata quantize maxPixiel = Some (Inl DecodeFailure)"
    by (simp add: generateWad3Spray_def)
  with None show ?thesis by simp
next
  case (Some dims)
  obtain fw fh where "dims = (fw, fh)" by (cases dims)
  with Some errors_of_decoded_source [of fw fh quantize maxPixiel] show ?thesis by simp
qed

lemma planner_small_budget:
  "resizeWithAspectRatioAndAlign 2 1 100 16 = Some (0, 16)"
  by code_simp

theorem fatal_errors_witness:
  "(0::int) \<le> 100
   \<and> generateWad3Spray (Some (None, Some 480)) white_image 100 = Some (Inl InvalidImage)
   \<and> generateWad3Spray (Some (Some 2, Some 1)) white_image 100 = Some (Inl InvalidImageSize)
   \<and> (\<nexists>out. generateWad3Spray (Some (Some 2, Some 1)) white_image 100 = Some (Inr out))"
proof -
  have h: "(0::int) \<le> 100" by simp
  have a: "generateWad3Spray (Some (None, Some 480)) white_image 100 = Some (Inl InvalidImage)"
    using fatal_errors [OF h, of "Some (None, Some 480)" white_image] by simp
  have b: "generateWad3Spray (Some (Some 2, Some 1)) white_image 100 = Some (Inl InvalidImageSize)"
    using fatal_errors [OF h, of "Some (Some 2, Some 1)" white_image] planner_small_budget
    by simp
  have c: "\<nexists>out. generateWad3Spray (Some (Some 2, Some 1)) white_image 100 = Some (Inr out)"
    using fatal_errors [OF h, of "Some (Some 2, Some 1)" white_image] b by blast
  from h a b c show ?thesis by blast
qed

text \<open>
  C10. The property as stated (for every \<open>fw, fh > 0\<close>: a zero component exactly when
  \<open>maxPixel < 256\<close>, and from \<open>maxPixel \<ge> 256\<close> on a result \<open>w \<ge> 16\<close>, \<open>h \<ge> 16\<close> with
  \<open>w * h \<le> maxPixel\<close>) fails for budgets above \<open>2^61\<close>, where the loop computes with
  rounded values. For a 256 \<times> 256 source and \<open>maxPixel = 2305843076064073728\<close>, just
  above \<open>2^61\<close>, the planner returns 1518500272 squared: the exact area is 256 pixels
  above the budget, the rounded area is the budget. For the same source and the Number
  \<open>10^35\<close> the loop does not return.
\<close>

theorem large_budget_counterexample:
  "(256 :: int) \<le> 2305843076064073728
   \<and> resizeWithAspectRatioAndAlign 256 256 2305843076064073728 16
       = Some (1518500272, 1518500272)
   \<and> (2305843076064073728 :: int) < 1518500272 * 1518500272
   \<and> (256 :: int) \<le> 99999999999999996863366107917975552
   \<and> resizeWithAspectRatioAndAlign 256 256 99999999999999996863366107917975552 16 = None"
proof -
  have "resizeWithAspectRatioAndAlign 256 256 2305843076064073728 16
          = Some (1518500272, 1518500272)"
    by code_simp
  with planner_does_not_return show ?thesis by simp
qed

text \<open>
  C10, amended. For \<open>0 < fw, fh < 2^32\<close> and \<open>0 \<le> maxPixel < 2^61\<close> the planner's result
  has a zero component exactly when \<open>maxPixel < 256\<close>; from \<open>maxPixel \<ge> 256\<close> on it
  returns \<open>w \<ge> 16\<close> and \<open>h \<ge> 16\<close> with \<open>w * h \<le> maxPixel\<close>, and the encoder's
  'Invalid image size' is raised exactly for the budgets below 256.
\<close>

theorem invalid_size_iff_budget_below_256:
  assumes "0 < fw" and "fw < 2 ^ 32" and "0 < fh" and "fh < 2 ^ 32"
    and "0 \<le> maxPixel" and "maxPixel < 2 ^ 61"
  shows "\<exists>w h. resizeWithAspectRatioAndAlign (int fw) (int fh) maxPixel 16 = Some (w, h)
           \<and> (w \<le> 0 \<or> h \<le> 0 \<longleftrightarrow> maxPixel < 256)
           \<and> (w = 0 \<or> h = 0 \<longleftrightarrow> maxPixel < 256)
           \<and> (256 \<le> maxPixel \<longrightarrow> 16 \<le> w \<and> 16 \<le> h \<and> w * h \<le> maxPixel)
           \<and> (generateWad3Spray (Some (Some fw, Some fh)) quantize maxPixel
                 = Some (Inl InvalidImageSize) \<longleftrightarrow> maxPixel < 256)"
proof -
  obtain w h where r: "resizeWithAspectRatioAndAlign (int fw) (int fh) maxPixel 16 = Some (w, h)"
    and nonneg: "0 \<le> w" "0 \<le> h" and dvd: "16 dvd w" "16 dvd h"
    and area: "w * h \<le> maxPixel" and zero: "w = 0 \<or> h = 0 \<longleftrightarrow> maxPixel < 256"
    using planner_on_metadata [OF assms] by blast
  have le: "w \<le> 0 \<or> h \<le> 0 \<longleftrightarrow> maxPixel < 256"
    using nonneg zero by auto
  have big: "16 \<le> w \<and> 16 \<le> h" if "256 \<le> maxPixel"
  proof -
    from that zero nonneg have "0 < w" "0 < h" by auto
    with dvd show ?thesis by (simp add: zdvd_imp_le)
  qed
  have gen: "generateWad3Spray (Some (Some fw, Some fh)) quantize maxPixel
               = Some (Inl InvalidImageSize) \<longleftrightarrow> maxPixel < 256"
  proof (cases "w = 0 \<or> h = 0")
    case True
    then show ?thesis
      using assms(1,3) r zero by (simp add: generateWad3Spray_def falsy_def)
  next
    case False
    have "wad3_serialize p m w h \<noteq> Inl InvalidImageSize" for p m
      using wad3_serialize_error by fastforce
    with False show ?thesis
      using assms(1,3) r zero
      by (auto simp: generateWad3Spray_def falsy_def split: option.splits)
  qed
  from r le zero big area gen show ?thesis by blast
qed

lemma planner_default_budget:
  "resizeWithAspectRatioAndAlign 200 100 12288 16 = Some (144, 64)"
  by code_simp

theorem invalid_size_iff_budget_below_256_witness:
  "(0::nat) < 200 \<and> (200::nat) < 2 ^ 32 \<and> (0::nat) < 100 \<and> (100::nat) < 2 ^ 32
   \<and> (0::int) \<le> 12288 \<and> (12288::int) < 2 ^ 61
   \<and> resizeWithAspectRatioAndAlign 200 100 12288 16 = Some (144, 64)
   \<and> generateWad3Spray (Some (Some 200, Some 100)) white_image 12288
       \<noteq> Some (Inl InvalidImageSize)
   \<and> generateWad3Spray (Some (Some 2, Some 1)) white_image 100 = Some (Inl InvalidImageSize)"
proof -
  have a: "generateWad3Spray (Some (Some 200, Some 100)) white_image 12288
       \<noteq> Some (Inl InvalidImageSize)"
    using invalid_size_iff_budget_below_256 [of 200 100 12288 white_image] by auto
  have b: "generateWad3Spray (Some (Some 2, Some 1)) white_image 100 = Some (Inl InvalidImageSize)"
    using invalid_size_iff_budget_below_256 [of 2 1 100 white_image] by auto
  from a b planner_default_budget show ?thesis by simp
qed

end
